theory Spec2Isabelle
  imports Main "HOL-Library.Sublist" "HOL-Library.AList" "HOL-Library.Char_ord"
    "HOL-Library.List_Lexorder"
begin

section \<open>Slash-separated paths (Go's \<open>path\<close> and \<open>path/filepath\<close> on Unix)\<close>

text \<open>
  The vendoring engine (\<open>file/file.go\<close>) computes every path with \<open>path.Join\<close>,
  \<open>filepath.Join\<close>, \<open>filepath.Dir\<close> and \<open>filepath.Abs\<close>. Go strings are byte
  strings, here \<open>string\<close>. \<open>Clean\<close> follows the four rules of the library's
  documentation: multiple slashes collapse, \<open>.\<close> elements vanish, an inner \<open>..\<close>
  removes the element before it, and a \<open>..\<close> at the start of a rooted path vanishes;
  the empty result is \<open>.\<close>.
\<close>

fun splitSlash :: "string \<Rightarrow> string list" where
  "splitSlash [] = [[]]"
| "splitSlash (c # cs) =
     (if c = CHR ''/'' then [] # splitSlash cs
      else (case splitSlash cs of [] \<Rightarrow> [[c]] | x # xs \<Rightarrow> (c # x) # xs))"

fun joinSlash :: "string list \<Rightarrow> string" where
  "joinSlash [] = []"
| "joinSlash [x] = x"
| "joinSlash (x # y # ys) = x @ CHR ''/'' # joinSlash (y # ys)"

text \<open>
  One element of \<open>Clean\<close>'s scan. \<open>out\<close> is the output so far, last element first.
  A \<open>..\<close> backtracks over a plain element when there is one, is kept when the path is
  not rooted, and is dropped otherwise.
\<close>

definition cleanStep :: "bool \<Rightarrow> string list \<Rightarrow> string \<Rightarrow> string list" where
  "cleanStep rooted out e =
     (if e = [] \<or> e = ''.'' then out
      else if e = ''..'' then
        (if out \<noteq> [] \<and> hd out \<noteq> ''..'' then tl out
         else if \<not> rooted then e # out
         else out)
      else e # out)"

definition IsAbs :: "string \<Rightarrow> bool" where
  "IsAbs p = prefix ''/'' p"

definition Clean :: "string \<Rightarrow> string" where
  "Clean p =
     (if p = [] then ''.''
      else let rooted = IsAbs p;
               out = rev (foldl (cleanStep rooted) [] (splitSlash p))
           in if rooted then CHR ''/'' # joinSlash out
              else if out = [] then ''.'' else joinSlash out)"

text \<open>\<open>Join\<close> of two elements: empty elements are ignored, the rest is cleaned.\<close>

definition Join :: "string \<Rightarrow> string \<Rightarrow> string" where
  "Join a b =
     (if a = [] \<and> b = [] then []
      else Clean (if a = [] then b else a @ CHR ''/'' # b))"

text \<open>\<open>filepath.Dir\<close>: everything up to and including the last slash, cleaned.\<close>

definition Dir :: "string \<Rightarrow> string" where
  "Dir p = Clean (rev (dropWhile (\<lambda>c. c \<noteq> CHR ''/'') (rev p)))"

text \<open>\<open>filepath.Abs\<close>, given the working directory.\<close>

definition Abs :: "string \<Rightarrow> string \<Rightarrow> string" where
  "Abs wd p = (if IsAbs p then Clean p else Join wd p)"

definition HasPrefix :: "string \<Rightarrow> string \<Rightarrow> bool" where
  "HasPrefix s pre = prefix pre s"

definition HasSuffix :: "string \<Rightarrow> string \<Rightarrow> bool" where
  "HasSuffix s suf = suffix suf s"

section \<open>The file system the engine runs on\<close>

text \<open>
  A tree of regular files (with their bytes), directories (entries by name) and
  symbolic links. The engine never reads a link's target: \<open>copy\<close> looks at its source
  with \<open>Lstat\<close> and skips links. Following links is outside this embedding: every
  operation that would follow one (\<open>Stat\<close>, opening, walking through it) reports
  \<open>ELOOP\<close>, as the kernel does for a link whose chain does not resolve.
\<close>

type_synonym bytes = string

datatype node = File bytes | Directory "(string \<times> node) list" | Symlink string

datatype errno = ENOENT | ENOTDIR | ENOTEMPTY | EISDIR | ELOOP | EBUSY | EEXIST

text \<open>The mutating calls the engine makes, with the path each was given.\<close>

datatype syscall =
    SysMkdirAll string
  | SysRemove string
  | SysRemoveAll string
  | SysCreate string
  | SysWriteFile string

record world =
  root :: node
  cwd :: string
  Getenv :: "string \<Rightarrow> string"
  mtime :: "string list \<Rightarrow> int"
  trace :: "syscall list"

text \<open>
  \<open>root\<close> is the directory \<open>/\<close>; \<open>cwd\<close> is what \<open>os.Getwd\<close> returns; \<open>Getenv\<close> gives the
  empty string for an unset variable; \<open>mtime\<close> is the modification time \<open>Stat\<close> reports
  for a resolved path (the engine reads times only before its first mutation);
  \<open>trace\<close> lists the mutating calls attempted so far, oldest first, whether they
  succeeded or not.
\<close>

text \<open>
  A path string names a list of components from \<open>/\<close>: a relative one starts at
  \<open>cwd\<close>, and \<open>.\<close> and \<open>..\<close> are resolved as in a rooted \<open>Clean\<close>.
\<close>

definition resolve :: "world \<Rightarrow> string \<Rightarrow> string list" where
  "resolve s p =
     rev (foldl (cleanStep True) []
            (splitSlash (if IsAbs p then p else cwd s @ CHR ''/'' # p)))"

fun walk :: "node \<Rightarrow> string list \<Rightarrow> errno + node" where
  "walk n [] = Inr n"
| "walk (Directory es) (x # xs) =
     (case map_of es x of None \<Rightarrow> Inl ENOENT | Some c \<Rightarrow> walk c xs)"
| "walk (File b) (x # xs) = Inl ENOTDIR"
| "walk (Symlink t) (x # xs) = Inl ELOOP"

text \<open>
  \<open>update_at xs f n\<close> rewrites the entry that \<open>xs\<close> names below \<open>n\<close>: \<open>f\<close> sees the
  entry (\<open>None\<close> when the last component is absent) and answers with an error, with
  \<open>None\<close> to unlink it or with the node to put there.
\<close>

fun update_at :: "string list \<Rightarrow> (node option \<Rightarrow> errno + node option) \<Rightarrow> node \<Rightarrow> errno + node"
  where
  "update_at [] f n = Inl EBUSY"
| "update_at [x] f (Directory es) =
     (case f (map_of es x) of
        Inl e \<Rightarrow> Inl e
      | Inr None \<Rightarrow> Inr (Directory (AList.delete x es))
      | Inr (Some c) \<Rightarrow> Inr (Directory (AList.update x c es)))"
| "update_at (x # y # ys) f (Directory es) =
     (case map_of es x of
        None \<Rightarrow> Inl ENOENT
      | Some c \<Rightarrow>
          (case update_at (y # ys) f c of
             Inl e \<Rightarrow> Inl e
           | Inr c' \<Rightarrow> Inr (Directory (AList.update x c' es))))"
| "update_at (x # xs) f (File b) = Inl ENOTDIR"
| "update_at (x # xs) f (Symlink t) = Inl ELOOP"

text \<open>\<open>unlink\<close> then \<open>rmdir\<close>, as \<open>os.Remove\<close> tries them.\<close>

fun remove_entry :: "node option \<Rightarrow> errno + node option" where
  "remove_entry None = Inl ENOENT"
| "remove_entry (Some (Directory [])) = Inr None"
| "remove_entry (Some (Directory (e # es))) = Inl ENOTEMPTY"
| "remove_entry (Some (File b)) = Inr None"
| "remove_entry (Some (Symlink t)) = Inr None"

text \<open>Opening with \<open>O_CREATE|O_TRUNC\<close> and writing \<open>b\<close>.\<close>

fun write_entry :: "bytes \<Rightarrow> node option \<Rightarrow> errno + node option" where
  "write_entry b None = Inr (Some (File b))"
| "write_entry b (Some (File old)) = Inr (Some (File b))"
| "write_entry b (Some (Directory es)) = Inl EISDIR"
| "write_entry b (Some (Symlink t)) = Inl ELOOP"

text \<open>
  \<open>os.MkdirAll\<close>: existing directories on the way are kept, missing ones are created,
  anything else on the way is an error (and then nothing was created, since only
  fresh directories lie below a created one).
\<close>

fun mkdir_all :: "string list \<Rightarrow> node option \<Rightarrow> errno + node" where
  "mkdir_all [] None = Inr (Directory [])"
| "mkdir_all [] (Some (Directory es)) = Inr (Directory es)"
| "mkdir_all [] (Some (File b)) = Inl ENOTDIR"
| "mkdir_all [] (Some (Symlink t)) = Inl EEXIST"
| "mkdir_all (x # xs) None =
     (case mkdir_all xs None of Inl e \<Rightarrow> Inl e | Inr c \<Rightarrow> Inr (Directory [(x, c)]))"
| "mkdir_all (x # xs) (Some (Directory es)) =
     (case mkdir_all xs (map_of es x) of
        Inl e \<Rightarrow> Inl e
      | Inr c \<Rightarrow> Inr (Directory (AList.update x c es)))"
| "mkdir_all (x # xs) (Some (File b)) = Inl ENOTDIR"
| "mkdir_all (x # xs) (Some (Symlink t)) = Inl ELOOP"

subsection \<open>The calls of package \<open>os\<close> and \<open>io/ioutil\<close>\<close>

record FileInfo =
  IsDir :: bool
  IsSymlink :: bool
  ModTime :: int

definition info_of :: "node \<Rightarrow> int \<Rightarrow> FileInfo" where
  "info_of n t =
     \<lparr>IsDir = (case n of Directory es \<Rightarrow> True | _ \<Rightarrow> False),
      IsSymlink = (case n of Symlink l \<Rightarrow> True | _ \<Rightarrow> False),
      ModTime = t\<rparr>"

definition lookup :: "world \<Rightarrow> string \<Rightarrow> errno + node" where
  "lookup s p = (if p = [] then Inl ENOENT else walk (root s) (resolve s p))"

definition os_Lstat :: "world \<Rightarrow> string \<Rightarrow> errno + FileInfo" where
  "os_Lstat s p =
     (case lookup s p of
        Inl e \<Rightarrow> Inl e
      | Inr n \<Rightarrow> Inr (info_of n (mtime s (resolve s p))))"

definition os_Stat :: "world \<Rightarrow> string \<Rightarrow> errno + FileInfo" where
  "os_Stat s p =
     (case lookup s p of
        Inl e \<Rightarrow> Inl e
      | Inr (Symlink t) \<Rightarrow> Inl ELOOP
      | Inr n \<Rightarrow> Inr (info_of n (mtime s (resolve s p))))"

definition ReadFile :: "world \<Rightarrow> string \<Rightarrow> errno + bytes" where
  "ReadFile s p =
     (case lookup s p of
        Inl e \<Rightarrow> Inl e
      | Inr (File b) \<Rightarrow> Inr b
      | Inr (Directory es) \<Rightarrow> Inl EISDIR
      | Inr (Symlink t) \<Rightarrow> Inl ELOOP)"

text \<open>\<open>ioutil.ReadDir\<close> returns the entries sorted by file name.\<close>

definition ReadDir :: "world \<Rightarrow> string \<Rightarrow> errno + string list" where
  "ReadDir s p =
     (case lookup s p of
        Inl e \<Rightarrow> Inl e
      | Inr (Directory es) \<Rightarrow> Inr (sort (remdups (map fst es)))
      | Inr (File b) \<Rightarrow> Inl ENOTDIR
      | Inr (Symlink t) \<Rightarrow> Inl ELOOP)"

text \<open>A mutating call ends with an error or not; either way the world records it.\<close>

datatype sysret = Ok world | Err errno world

definition attempt :: "syscall \<Rightarrow> errno + node \<Rightarrow> world \<Rightarrow> sysret" where
  "attempt c r s =
     (case r of
        Inl e \<Rightarrow> Err e (s\<lparr>trace := trace s @ [c]\<rparr>)
      | Inr n \<Rightarrow> Ok (s\<lparr>root := n, trace := trace s @ [c]\<rparr>))"

definition os_MkdirAll :: "string \<Rightarrow> world \<Rightarrow> sysret" where
  "os_MkdirAll p s =
     attempt (SysMkdirAll p)
       (if p = [] then Inl ENOENT else mkdir_all (resolve s p) (Some (root s))) s"

definition os_Remove :: "string \<Rightarrow> world \<Rightarrow> sysret" where
  "os_Remove p s =
     attempt (SysRemove p)
       (if p = [] then Inl ENOENT else update_at (resolve s p) remove_entry (root s)) s"

text \<open>\<open>os.RemoveAll\<close> returns nil when the path does not exist.\<close>

definition os_RemoveAll :: "string \<Rightarrow> world \<Rightarrow> sysret" where
  "os_RemoveAll p s =
     attempt (SysRemoveAll p)
       (if p = [] then Inr (root s)
        else case update_at (resolve s p) (\<lambda>n. Inr None) (root s) of
               Inl e \<Rightarrow> if e = ENOENT then Inr (root s) else Inl e
             | Inr n \<Rightarrow> Inr n) s"

definition os_Create :: "string \<Rightarrow> world \<Rightarrow> sysret" where
  "os_Create p s =
     attempt (SysCreate p)
       (if p = [] then Inl ENOENT else update_at (resolve s p) (write_entry []) (root s)) s"

definition WriteFile :: "string \<Rightarrow> bytes \<Rightarrow> world \<Rightarrow> sysret" where
  "WriteFile p b s =
     attempt (SysWriteFile p)
       (if p = [] then Inl ENOENT else update_at (resolve s p) (write_entry b) (root s)) s"

text \<open>
  Writing through the descriptor that \<open>os.Create\<close> returned (\<open>io.Copy\<close>): the file is
  open, so only its content changes and no further call is recorded.
\<close>

definition write_open :: "string \<Rightarrow> bytes \<Rightarrow> world \<Rightarrow> world" where
  "write_open p b s =
     (case update_at (resolve s p) (write_entry b) (root s) of
        Inl e \<Rightarrow> s
      | Inr n \<Rightarrow> s\<lparr>root := n\<rparr>)"

section \<open>The vendor directory (\<open>file/file.go\<close>)\<close>

text \<open>
  The module description and the dependency list arrive parsed (\<open>ParseModJSON\<close>,
  \<open>ParseDownloadJSON\<close>); the engine reads only the fields below. A nil \<open>Replace\<close>
  slice is the empty list.
\<close>

text \<open>
  A compiled regular expression (\<open>*regexp.Regexp\<close>) is held as its match relation:
  \<open>re a m b\<close> says that \<open>m\<close> is a match of the expression where it stands between
  \<open>a\<close> and \<open>b\<close> in the string \<open>a @ m @ b\<close>. The context is part of the relation
  because the assertions (\<open>^\<close>, \<open>$\<close>, word boundaries) read it: the pattern \<open>[.]go$\<close> is
  \<open>\<lambda>a m b. m = ''.go'' \<and> b = []\<close>. \<open>regexp.MatchString\<close> reports whether the string
  contains any match of the expression. The nil pointer is \<open>None\<close>.
\<close>

type_synonym Regexp = "string \<Rightarrow> string \<Rightarrow> string \<Rightarrow> bool"

text \<open>The ways to cut a string in two, and in three.\<close>

fun splits2 :: "string \<Rightarrow> (string \<times> string) list" where
  "splits2 [] = [([], [])]"
| "splits2 (c # cs) = ([], c # cs) # map (\<lambda>(p, q). (c # p, q)) (splits2 cs)"

definition splits3 :: "string \<Rightarrow> (string \<times> string \<times> string) list" where
  "splits3 s = concat (map (\<lambda>(a, r). map (\<lambda>(m, b). (a, m, b)) (splits2 r)) (splits2 s))"

definition MatchString :: "Regexp \<Rightarrow> string \<Rightarrow> bool" where
  "MatchString re s = list_ex (\<lambda>(a, m, b). re a m b) (splits3 s)"

record Module =
  Path :: string
  Version :: string

record Replace =
  Old :: Module
  New :: Module

record GoMod =
  Replace :: "Replace list"

record Dep =
  DepPath :: string
  DepVersion :: string
  DepDir :: string

record VendorDir =
  basePath :: string
  modFileContent :: bytes
  gomod :: GoMod
  deps :: "Dep list"
  filter' :: "Regexp option"
  debug :: bool
  quiet :: bool

record Options =
  Help :: bool
  Debug :: bool
  Quiet :: bool
  BasePath :: string
  Filter :: string

text \<open>
  A call of the engine returns a value, or ends the process (\<open>output.Fatal\<close>,
  \<open>os.Exit\<close>) with a message, or is still running when its fuel is used up. The world
  at that moment comes with the first two.
\<close>

datatype 'a outcome = Return 'a world | Fatal string world | Diverge

text \<open>
  Modelled from the spec: package \<open>output\<close> is not among the sources. By the spec
  every failed call the engine checks is fatal for the run, so \<open>output.OnError err msg\<close>
  ends the process with \<open>msg\<close> when \<open>err\<close> is not nil and does nothing otherwise, and
  \<open>output.Fatal\<close> always ends it. In the functions below each \<open>OnError\<close> is the
  \<open>Fatal\<close> branch of the case on the call it follows.
\<close>

definition OnError :: "errno option \<Rightarrow> string \<Rightarrow> world \<Rightarrow> unit outcome" where
  "OnError err msg s = (case err of None \<Rightarrow> Return () s | Some e \<Rightarrow> Fatal msg s)"

definition vendPath :: "VendorDir \<Rightarrow> string \<Rightarrow> string" where
  "vendPath v p = Join (basePath v) p"

definition exists :: "VendorDir \<Rightarrow> string \<Rightarrow> world \<Rightarrow> bool" where
  "exists v file s = (case os_Stat s file of Inl e \<Rightarrow> e \<noteq> ENOENT | Inr i \<Rightarrow> True)"

definition removeAll :: "VendorDir \<Rightarrow> string \<Rightarrow> world \<Rightarrow> unit outcome" where
  "removeAll v p s =
     (if length p < length (basePath v)
      then Fatal ''cannot remove path that is ancestor of base path'' s
      else case os_RemoveAll p s of
             Err e s1 \<Rightarrow> Fatal ''Error removing path'' s1
           | Ok s1 \<Rightarrow> Return () s1)"

definition remove :: "VendorDir \<Rightarrow> string \<Rightarrow> world \<Rightarrow> sysret" where
  "remove v p s = os_Remove p s"

definition copyModFile :: "VendorDir \<Rightarrow> world \<Rightarrow> VendorDir outcome" where
  "copyModFile v s =
     (case ReadFile s (vendPath v ''modules.txt'') of
        Inl e \<Rightarrow> Fatal ''Error reading modules.txt'' s
      | Inr b \<Rightarrow> Return (v\<lparr>modFileContent := b\<rparr>) s)"

definition writeModFile :: "VendorDir \<Rightarrow> world \<Rightarrow> unit outcome" where
  "writeModFile v s =
     (case WriteFile (vendPath v ''modules.txt'') (modFileContent v) s of
        Err e s1 \<Rightarrow> Fatal ''Error saving modules.txt'' s1
      | Ok s1 \<Rightarrow> Return () s1)"

text \<open>
  \<open>clear\<close> has a pointer receiver: the bytes it holds in \<open>modFileContent\<close> stay in the
  \<open>VendorDir\<close>, which is returned.
\<close>

definition clear :: "VendorDir \<Rightarrow> world \<Rightarrow> VendorDir outcome" where
  "clear v s =
     (let haveModFile = exists v (vendPath v ''modules.txt'') s in
      case (if haveModFile then copyModFile v s else Return v s) of
        Diverge \<Rightarrow> Diverge
      | Fatal m s1 \<Rightarrow> Fatal m s1
      | Return v1 s1 \<Rightarrow>
          (case removeAll v1 (basePath v1) s1 of
             Diverge \<Rightarrow> Diverge
           | Fatal m s2 \<Rightarrow> Fatal m s2
           | Return u s2 \<Rightarrow>
               (case os_MkdirAll (basePath v1) s2 of
                  Err e s3 \<Rightarrow> Fatal ''Error creating vendor directory'' s3
                | Ok s3 \<Rightarrow>
                    if haveModFile
                    then (case writeModFile v1 s3 of
                            Diverge \<Rightarrow> Diverge
                          | Fatal m s4 \<Rightarrow> Fatal m s4
                          | Return u s4 \<Rightarrow> Return v1 s4)
                    else Return v1 s3)))"

definition copyFile :: "VendorDir \<Rightarrow> string \<Rightarrow> string \<Rightarrow> world \<Rightarrow> bool outcome" where
  "copyFile v src dest s =
     (case os_MkdirAll (Dir dest) s of
        Err e s1 \<Rightarrow> Fatal ''Error creating directories'' s1
      | Ok s1 \<Rightarrow>
          (case os_Create dest s1 of
             Err e s2 \<Rightarrow> Fatal ''Error creating file'' s2
           | Ok s2 \<Rightarrow>
               (case lookup s2 src of
                  Inl e \<Rightarrow> Fatal ''Error opening file'' s2
                | Inr (Symlink t) \<Rightarrow> Fatal ''Error opening file'' s2
                | Inr (Directory es) \<Rightarrow> Fatal ''Error copying file'' s2
                | Inr (File b) \<Rightarrow> Return True (write_open dest b s2))))"

text \<open>
  \<open>copy\<close> and \<open>copyDirectory\<close> call each other. Nothing bounds the recursion when
  the destination lies inside the source, so each call of \<open>copy\<close> uses one unit of
  fuel. \<open>copyDirectory\<close> is written first and receives as \<open>cp\<close> the method it calls
  back, \<open>v.copy\<close> with the fuel that is left; \<open>copyContents\<close> is its loop over the
  entries read.
\<close>

fun copyContents ::
  "(string \<Rightarrow> string \<Rightarrow> world \<Rightarrow> bool outcome) \<Rightarrow> string \<Rightarrow> string \<Rightarrow> string list \<Rightarrow> bool
     \<Rightarrow> world \<Rightarrow> bool outcome" where
  "copyContents cp src dest [] copied s = Return copied s"
| "copyContents cp src dest (content # contents) copied s =
     (case cp (Join src content) (Join dest content) s of
        Diverge \<Rightarrow> Diverge
      | Fatal m s1 \<Rightarrow> Fatal m s1
      | Return c s1 \<Rightarrow> copyContents cp src dest contents (if c then True else copied) s1)"

definition copyDirectory ::
  "(string \<Rightarrow> string \<Rightarrow> world \<Rightarrow> bool outcome) \<Rightarrow> VendorDir \<Rightarrow> string \<Rightarrow> string \<Rightarrow> world
     \<Rightarrow> bool outcome" where
  "copyDirectory cp v src dest s =
     (case os_MkdirAll dest s of
        Err e s1 \<Rightarrow> Fatal ''Error creating directories'' s1
      | Ok s1 \<Rightarrow>
          (case ReadDir s1 src of
             Inl e \<Rightarrow> Fatal ''Error reading source directory'' s1
           | Inr contents \<Rightarrow>
               (case copyContents cp src dest contents False s1 of
                  Diverge \<Rightarrow> Diverge
                | Fatal m s2 \<Rightarrow> Fatal m s2
                | Return copied s2 \<Rightarrow>
                    if \<not> copied \<and> filter' v \<noteq> None
                    then (case remove v dest s2 of
                            Err e s3 \<Rightarrow> Fatal ''Error removing path'' s3
                          | Ok s3 \<Rightarrow> Return copied s3)
                    else Return copied s2)))"

fun copy :: "nat \<Rightarrow> VendorDir \<Rightarrow> string \<Rightarrow> string \<Rightarrow> world \<Rightarrow> bool outcome" where
  "copy 0 v src dest s = Diverge"
| "copy (Suc n) v src dest s =
     (case os_Lstat s src of
        Inl e \<Rightarrow> Fatal ''Error getting information about source'' s
      | Inr info \<Rightarrow>
          if IsSymlink info then Return False s
          else if IsDir info then copyDirectory (copy n v) v src dest s
          else if filter' v = None \<or> MatchString (the (filter' v)) dest
          then copyFile v src dest s
          else Return False s)"

text \<open>
  The pruning loop of \<open>CopyDependencies\<close>:
  \<open>for p := d.Path; p != "."; p = filepath.Dir(p)\<close>. One unit of fuel per test of the
  loop condition.
\<close>

fun prune :: "nat \<Rightarrow> VendorDir \<Rightarrow> string \<Rightarrow> world \<Rightarrow> unit outcome" where
  "prune 0 v p s = Diverge"
| "prune (Suc n) v p s =
     (if p = ''.'' then Return () s
      else case remove v (vendPath v p) s of
             Ok s1 \<Rightarrow> prune n v (Dir p) s1
           | Err e s1 \<Rightarrow>
               if e = ENOENT then prune n v (Dir p) s1
               else if e = ENOTEMPTY then Return () s1
               else Fatal ''Error removing path'' s1)"

fun copyDeps :: "nat \<Rightarrow> VendorDir \<Rightarrow> Dep list \<Rightarrow> world \<Rightarrow> unit outcome" where
  "copyDeps n v [] s = Return () s"
| "copyDeps n v (d # ds) s =
     (case copy n v (DepDir d) (vendPath v (DepPath d)) s of
        Diverge \<Rightarrow> Diverge
      | Fatal m s1 \<Rightarrow> Fatal m s1
      | Return copied s1 \<Rightarrow>
          if \<not> copied \<and> filter' v \<noteq> None
          then (case prune n v (DepPath d) s1 of
                  Diverge \<Rightarrow> Diverge
                | Fatal m s2 \<Rightarrow> Fatal m s2
                | Return u s2 \<Rightarrow> copyDeps n v ds s2)
          else copyDeps n v ds s1)"

definition replace :: "nat \<Rightarrow> VendorDir \<Rightarrow> Replace \<Rightarrow> world \<Rightarrow> unit outcome" where
  "replace n v r s =
     (if Path (Old r) \<noteq> Path (New r)
      then let newPath = vendPath v (Path (New r));
               oldPath = vendPath v (Path (Old r))
           in if exists v newPath s
              then (case copy n v newPath oldPath s of
                      Diverge \<Rightarrow> Diverge
                    | Fatal m s1 \<Rightarrow> Fatal m s1
                    | Return c s1 \<Rightarrow> removeAll v newPath s1)
              else (case copy n v (Path (New r)) oldPath s of
                      Diverge \<Rightarrow> Diverge
                    | Fatal m s1 \<Rightarrow> Fatal m s1
                    | Return c s1 \<Rightarrow> Return () s1)
      else Return () s)"

fun replaceAll :: "nat \<Rightarrow> VendorDir \<Rightarrow> Replace list \<Rightarrow> world \<Rightarrow> unit outcome" where
  "replaceAll n v [] s = Return () s"
| "replaceAll n v (r # rs) s =
     (case replace n v r s of
        Diverge \<Rightarrow> Diverge
      | Fatal m s1 \<Rightarrow> Fatal m s1
      | Return u s1 \<Rightarrow> replaceAll n v rs s1)"

text \<open>What \<open>CopyDependencies\<close> does once it has decided to run.\<close>

definition vendor :: "nat \<Rightarrow> VendorDir \<Rightarrow> world \<Rightarrow> unit outcome" where
  "vendor n v s =
     (case clear v s of
        Diverge \<Rightarrow> Diverge
      | Fatal m s1 \<Rightarrow> Fatal m s1
      | Return v1 s1 \<Rightarrow>
          (case copyDeps n v1 (deps v1) s1 of
             Diverge \<Rightarrow> Diverge
           | Fatal m s2 \<Rightarrow> Fatal m s2
           | Return u s2 \<Rightarrow> replaceAll n v1 (Replace (gomod v1)) s2))"

definition CopyDependencies :: "nat \<Rightarrow> VendorDir \<Rightarrow> world \<Rightarrow> unit outcome" where
  "CopyDependencies n v s =
     (if \<not> HasSuffix (basePath v) ''/vendor'' \<and> Replace (gomod v) = []
      then let goModPath = (if Getenv s ''GOMOD'' \<noteq> [] then Getenv s ''GOMOD'' else ''go.mod'')
           in case os_Stat s goModPath of
                Inl e \<Rightarrow> Fatal ''Error stat'ing go.mod file'' s
              | Inr statGoMod \<Rightarrow>
                  (case os_Stat s (basePath v) of
                     Inl e \<Rightarrow>
                       if e \<noteq> ENOENT then Fatal ''Error stat'ing base directory'' s
                       else vendor n v s
                   | Inr statBasePath \<Rightarrow>
                       if ModTime statBasePath > ModTime statGoMod then Return () s
                       else vendor n v s)
      else vendor n v s)"

text \<open>
  \<open>InitVendorDir\<close>. \<open>regexp.Compile\<close> is a parameter (\<open>None\<close> for a pattern that does
  not compile); the parsed module description and dependency list are parameters too
  (\<open>cli.ReadModJSON\<close> and \<open>cli.ReadDownloadJSON\<close> run the Go tool).
\<close>

definition InitVendorDir ::
  "(string \<Rightarrow> Regexp option) \<Rightarrow> GoMod \<Rightarrow> Dep list \<Rightarrow> Options \<Rightarrow> world
     \<Rightarrow> VendorDir outcome" where
  "InitVendorDir Compile m ds options s =
     (case (if Filter options \<noteq> []
            then (case Compile (Filter options) of
                    None \<Rightarrow> Inl ''Error compiling filter regular expression''
                  | Some filterR \<Rightarrow> Inr (Some filterR))
            else Inr None) of
        Inl msg \<Rightarrow> Fatal msg s
      | Inr filterRegexp \<Rightarrow>
          let wd = cwd s;
              basePath = Abs wd (BasePath options)
          in if basePath = wd \<or> \<not> HasPrefix basePath wd
             then Fatal ''Output path must be a subdirectory of the current directory'' s
             else Return \<lparr>basePath = basePath, modFileContent = [], gomod = m, deps = ds,
                          filter' = filterRegexp, debug = Debug options,
                          quiet = Quiet options\<rparr> s)"

section \<open>Notions of the specification\<close>

text \<open>
  The directory a clean path names, as its components, and what it means for one
  directory to lie strictly below another.
\<close>

definition components :: "string \<Rightarrow> string list" where
  "components p = List.filter (\<lambda>x. x \<noteq> []) (splitSlash p)"

definition strictSubdir :: "string \<Rightarrow> string \<Rightarrow> bool" where
  "strictSubdir wd p = strict_prefix (components wd) (components p)"

text \<open>A path lies under a root when the root's components start its own.\<close>

definition under :: "string \<Rightarrow> string \<Rightarrow> bool" where
  "under r p = prefix (components r) (components p)"

text \<open>
  A plain name is what a directory entry or one element of a module path is: not
  empty, free of slashes, and neither \<open>.\<close> nor \<open>..\<close>.
\<close>

definition plain :: "string \<Rightarrow> bool" where
  "plain x = (x \<noteq> [] \<and> x \<noteq> ''.'' \<and> x \<noteq> ''..'' \<and> CHR ''/'' \<notin> set x)"

text \<open>The elements an unrooted scan keeps are not empty, not a dot, and free of slashes.\<close>

definition kept :: "string \<Rightarrow> bool" where
  "kept x = (x \<noteq> [] \<and> x \<noteq> ''.'' \<and> CHR ''/'' \<notin> set x)"

text \<open>The bytes a list of elements takes when each is followed by a slash.\<close>

definition weight :: "string list \<Rightarrow> nat" where
  "weight xs = sum_list (map (\<lambda>x. Suc (length x)) xs)"

text \<open>
  The tree \<open>n'\<close> has no symbolic link that \<open>n\<close> does not have at the same place; and
  an entry rewriter that, when it puts a node, puts a regular file.
\<close>

definition no_new_links :: "node \<Rightarrow> node \<Rightarrow> bool" where
  "no_new_links n n' = (\<forall>ys t. walk n' ys = Inr (Symlink t) \<longrightarrow> walk n ys = Inr (Symlink t))"

definition makes_no_link :: "(node option \<Rightarrow> errno + node option) \<Rightarrow> bool" where
  "makes_no_link f = (\<forall>old c. f old = Inr (Some c) \<longrightarrow> (\<exists>b. c = File b))"

text \<open>
  The copy of a directory in the words of the specification: create \<open>dest\<close> (and
  ancestors) if absent; recurse into every entry; return true iff at least one child
  copy returned true; if none did and a filter is active, delete \<open>dest\<close>.
  \<open>copyEach\<close> runs the child copies in order and keeps what each returned.
\<close>

fun copyEach ::
  "(string \<Rightarrow> string \<Rightarrow> world \<Rightarrow> bool outcome) \<Rightarrow> string \<Rightarrow> string \<Rightarrow> string list \<Rightarrow> world
     \<Rightarrow> bool list outcome" where
  "copyEach cp src dest [] s = Return [] s"
| "copyEach cp src dest (x # xs) s =
     (case cp (Join src x) (Join dest x) s of
        Diverge \<Rightarrow> Diverge
      | Fatal m s1 \<Rightarrow> Fatal m s1
      | Return c s1 \<Rightarrow>
          (case copyEach cp src dest xs s1 of
             Diverge \<Rightarrow> Diverge
           | Fatal m s2 \<Rightarrow> Fatal m s2
           | Return cs s2 \<Rightarrow> Return (c # cs) s2))"

definition copyDirectory_spec ::
  "(string \<Rightarrow> string \<Rightarrow> world \<Rightarrow> bool outcome) \<Rightarrow> VendorDir \<Rightarrow> string \<Rightarrow> string \<Rightarrow> world
     \<Rightarrow> bool outcome" where
  "copyDirectory_spec cp v src dest s =
     (case os_MkdirAll dest s of
        Err e s1 \<Rightarrow> Fatal ''Error creating directories'' s1
      | Ok s1 \<Rightarrow>
          (case ReadDir s1 src of
             Inl e \<Rightarrow> Fatal ''Error reading source directory'' s1
           | Inr entries \<Rightarrow>
               (case copyEach cp src dest entries s1 of
                  Diverge \<Rightarrow> Diverge
                | Fatal m s2 \<Rightarrow> Fatal m s2
                | Return results s2 \<Rightarrow>
                    if True \<in> set results then Return True s2
                    else if filter' v = None then Return False s2
                    else (case os_Remove dest s2 of
                            Err e s3 \<Rightarrow> Fatal ''Error removing path'' s3
                          | Ok s3 \<Rightarrow> Return False s3))))"

text \<open>
  A tree as a file system has it: every entry of every directory has a plain name.
\<close>

primrec plain_names :: "node \<Rightarrow> bool" where
  "plain_names (File b) = True"
| "plain_names (Directory es) =
     list_all (\<lambda>p. plain (fst p) \<and> snd p) (map (map_prod id plain_names) es)"
| "plain_names (Symlink t) = True"

section \<open>Concrete inputs\<close>

text \<open>
  A project in \<open>/w\<close>, started as \<open>vend -output ../w-vendor\<close>.
\<close>

definition world7 :: world where
  "world7 =
     \<lparr>root = Directory [(''w'', Directory [(''go.mod'', File ''module m'')])],
      cwd = ''/w'', Getenv = (\<lambda>k. []), mtime = (\<lambda>p. 0), trace = []\<rparr>"

definition options7 :: Options where
  "options7 =
     \<lparr>Help = False, Debug = False, Quiet = False, BasePath = ''../w-vendor'', Filter = []\<rparr>"

text \<open>
  A dependency with the rooted path \<open>/x\<close>, whose filtered copy left the vendor
  directory \<open>/w/v\<close> empty.
\<close>

definition vendor10 :: VendorDir where
  "vendor10 =
     \<lparr>basePath = ''/w/v'', modFileContent = [], gomod = \<lparr>Replace = []\<rparr>,
      deps = [\<lparr>DepPath = ''/x'', DepVersion = ''v1.0.0'', DepDir = ''/cache/x''\<rparr>],
      filter' = Some (\<lambda>a m b. m = ''.go'' \<and> b = []), debug = False, quiet = True\<rparr>"

definition world10 :: world where
  "world10 =
     \<lparr>root = Directory [(''w'', Directory [(''v'', Directory [])])],
      cwd = ''/w'', Getenv = (\<lambda>k. []), mtime = (\<lambda>p. 0), trace = []\<rparr>"

text \<open>
  A vendor directory with the filter \<open>[.]go$\<close>; a dependency with the rooted path
  \<open>/x\<close> whose only file the filter rejects; and a vendor tree in which
  \<open>example.com\<close> still holds \<open>pkg2\<close>.
\<close>

definition vendor3 :: VendorDir where
  "vendor3 =
     \<lparr>basePath = ''/w/v'', modFileContent = [], gomod = \<lparr>Replace = []\<rparr>,
      deps = [], filter' = Some (\<lambda>a m b. m = ''.go'' \<and> b = []), debug = False, quiet = True\<rparr>"

definition vendor3r :: VendorDir where
  "vendor3r = vendor3\<lparr>deps := [\<lparr>DepPath = ''/x'', DepVersion = ''v0.1.0'', DepDir = ''/cache/x''\<rparr>]\<rparr>"

definition world3r :: world where
  "world3r =
     \<lparr>root = Directory
        [(''w'', Directory [(''v'', Directory [(''modules.txt'', File ''# m'')])]),
         (''cache'', Directory [(''x'', Directory [(''README'', File ''text'')])])],
      cwd = ''/w'', Getenv = (\<lambda>k. []), mtime = (\<lambda>p. 0), trace = []\<rparr>"

definition world3 :: world where
  "world3 =
     \<lparr>root = Directory [(''w'', Directory [(''v'', Directory
               [(''modules.txt'', File ''# m''),
                (''example.com'', Directory [(''pkg2'', Directory [(''a.go'', File ''package a'')])])])])],
      cwd = ''/w'', Getenv = (\<lambda>k. []), mtime = (\<lambda>p. 0), trace = []\<rparr>"

text \<open>
  A vendor directory that holds \<open>modules.txt\<close> and one vendored package.
\<close>

definition vendor2 :: VendorDir where
  "vendor2 =
     \<lparr>basePath = ''/w/vendor'', modFileContent = [], gomod = \<lparr>Replace = []\<rparr>,
      deps = [], filter' = None, debug = False, quiet = False\<rparr>"

definition world2 :: world where
  "world2 =
     \<lparr>root = Directory
        [(''w'', Directory
           [(''go.mod'', File ''module m''),
            (''vendor'', Directory
               [(''modules.txt'', File ''# example.com/a v1.0.0''),
                (''example.com'', Directory [(''a'', Directory [(''a.go'', File ''package a'')])])])])],
      cwd = ''/w'', Getenv = (\<lambda>k. []), mtime = (\<lambda>p. 0), trace = []\<rparr>"

text \<open>
  A project whose destination \<open>/w/out\<close> was filled before: once with the same modification time as \<open>go.mod\<close>, once with a later one.
\<close>

definition vendor1 :: VendorDir where
  "vendor1 =
     \<lparr>basePath = ''/w/out'', modFileContent = [], gomod = \<lparr>Replace = []\<rparr>,
      deps = [], filter' = None, debug = False, quiet = False\<rparr>"

definition tree1 :: node where
  "tree1 =
     Directory
       [(''w'', Directory
          [(''go.mod'', File ''module m''),
           (''out'', Directory [(''example.com'', Directory [(''a.go'', File ''package a'')])])])]"

definition world1 :: world where
  "world1 = \<lparr>root = tree1, cwd = ''/w'', Getenv = (\<lambda>k. []), mtime = (\<lambda>p. 5), trace = []\<rparr>"

definition world1n :: world where
  "world1n =
     \<lparr>root = tree1, cwd = ''/w'', Getenv = (\<lambda>k. []),
      mtime = (\<lambda>p. if p = [''w'', ''out''] then 9 else 5), trace = []\<rparr>"



text \<open>
  A dependency whose source directory holds a symbolic link.
\<close>

definition vendor8 :: VendorDir where
  "vendor8 =
     \<lparr>basePath = ''/w/v'', modFileContent = [], gomod = \<lparr>Replace = []\<rparr>,
      deps = [\<lparr>DepPath = ''m'', DepVersion = ''v1.0.0'', DepDir = ''/c/m''\<rparr>],
      filter' = None, debug = False, quiet = True\<rparr>"

definition world8 :: world where
  "world8 =
     \<lparr>root = Directory
        [(''w'', Directory [(''go.mod'', File ''module p''), (''v'', Directory [])]),
         (''c'', Directory [(''m'', Directory
            [(''a.go'', File ''package a''), (''latest'', Symlink ''a.go'')])])],
      cwd = ''/w'', Getenv = (\<lambda>k. []), mtime = (\<lambda>p. 0), trace = []\<rparr>"

text \<open>
  Two dependencies, \<open>m/sub\<close> and its parent \<open>m\<close>, under the filter \<open>[.]go$\<close>
  that rejects the only file of \<open>m\<close>: before any copy, and with \<open>m/sub\<close> vendored.
\<close>

definition vendor5 :: VendorDir where
  "vendor5 =
     \<lparr>basePath = ''/w/v'', modFileContent = [], gomod = \<lparr>Replace = []\<rparr>,
      deps = [\<lparr>DepPath = ''m/sub'', DepVersion = ''v1.0.0'', DepDir = ''/c/sub''\<rparr>,
              \<lparr>DepPath = ''m'', DepVersion = ''v1.0.0'', DepDir = ''/c/m''\<rparr>],
      filter' = Some (\<lambda>a m b. m = ''.go'' \<and> b = []), debug = False, quiet = True\<rparr>"

definition world5 :: world where
  "world5 =
     \<lparr>root = Directory
        [(''w'', Directory [(''go.mod'', File ''module p''), (''v'', Directory [])]),
         (''c'', Directory
            [(''m'', Directory [(''README'', File ''text'')]),
             (''sub'', Directory [(''a.go'', File ''package a'')])])],
      cwd = ''/w'', Getenv = (\<lambda>k. []), mtime = (\<lambda>p. 0), trace = []\<rparr>"

definition world5m :: world where
  "world5m =
     \<lparr>root = Directory
        [(''w'', Directory
            [(''go.mod'', File ''module p''),
             (''v'', Directory
                [(''m'', Directory [(''sub'', Directory [(''a.go'', File ''package a'')])])])]),
         (''c'', Directory
            [(''m'', Directory [(''README'', File ''text'')]),
             (''sub'', Directory [(''a.go'', File ''package a'')])])],
      cwd = ''/w'', Getenv = (\<lambda>k. []), mtime = (\<lambda>p. 0), trace = []\<rparr>"

text \<open>
  A project \<open>/w\<close> with a directory \<open>internal\<close> of its own, and a rule that redirects \<open>example.com/lib\<close> to \<open>../internal\<close>, which is \<open>/internal\<close>.
\<close>

definition rule49 :: Replace where
  "rule49 =
     \<lparr>Old = \<lparr>Path = ''example.com/lib'', Version = []\<rparr>,
      New = \<lparr>Path = ''../internal'', Version = []\<rparr>\<rparr>"

definition vendor49 :: VendorDir where
  "vendor49 =
     \<lparr>basePath = ''/w/vendor'', modFileContent = [], gomod = \<lparr>Replace = [rule49]\<rparr>,
      deps = [], filter' = None, debug = False, quiet = True\<rparr>"

definition world49 :: world where
  "world49 =
     \<lparr>root = Directory
        [(''internal'', Directory [(''lib.go'', File ''package lib'')]),
         (''w'', Directory
            [(''go.mod'', File ''module p''),
             (''internal'', Directory [(''x.go'', File ''package internal'')]),
             (''vendor'', Directory [(''modules.txt'', File ''# example.com/lib'')])])],
      cwd = ''/w'', Getenv = (\<lambda>k. []), mtime = (\<lambda>p. 0), trace = []\<rparr>"



section \<open>Paths: splitting, cleaning, resolving\<close>

lemma splitSlash_nonempty: "splitSlash s \<noteq> []"
  by (induction s) (auto split: list.splits)

lemma splitSlash_append: "splitSlash (a @ CHR ''/'' # b) = splitSlash a @ splitSlash b"
proof (induction a)
  case Nil
  show ?case by simp
next
  case (Cons c cs)
  obtain x xs where s: "splitSlash cs = x # xs"
    using splitSlash_nonempty by (cases "splitSlash cs") auto
  show ?case using Cons s by simp
qed

lemma splitSlash_noslash: "CHR ''/'' \<notin> set x \<Longrightarrow> splitSlash x = [x]"
  by (induction x) auto

lemma splitSlash_elems: "x \<in> set (splitSlash s) \<Longrightarrow> CHR ''/'' \<notin> set x"
proof (induction s arbitrary: x)
  case Nil
  then show ?case by simp
next
  case (Cons c cs)
  obtain y ys where s: "splitSlash cs = y # ys"
    using splitSlash_nonempty by (cases "splitSlash cs") auto
  show ?case
  proof (cases "c = CHR ''/''")
    case True
    then show ?thesis using Cons by auto
  next
    case False
    then have "x = c # y \<or> x \<in> set ys" using Cons.prems s by auto
    then show ?thesis using Cons.IH s False by auto
  qed
qed

lemma splitSlash_joinSlash:
  "xs \<noteq> [] \<Longrightarrow> \<forall>x\<in>set xs. CHR ''/'' \<notin> set x \<Longrightarrow> splitSlash (joinSlash xs) = xs"
proof (induction xs rule: joinSlash.induct)
  case 1
  then show ?case by simp
next
  case (2 x)
  then show ?case by (simp add: splitSlash_noslash)
next
  case (3 x y ys)
  then show ?case by (simp add: splitSlash_append splitSlash_noslash)
qed

lemma cleanStep_plain: "plain x \<Longrightarrow> cleanStep r out x = x # out"
  by (simp add: cleanStep_def plain_def)

lemma foldl_cleanStep_plain:
  "\<forall>x\<in>set xs. plain x \<Longrightarrow> foldl (cleanStep r) acc xs = rev xs @ acc"
  by (induction xs arbitrary: acc) (simp_all add: cleanStep_plain)

lemma cleanStep_rooted_plain:
  assumes "\<forall>x\<in>set out. plain x" and "CHR ''/'' \<notin> set e"
  shows "\<forall>x\<in>set (cleanStep True out e). plain x"
  using assms by (cases out) (auto simp: cleanStep_def plain_def)

lemma foldl_rooted_plain:
  "\<forall>x\<in>set acc. plain x \<Longrightarrow> \<forall>e\<in>set es. CHR ''/'' \<notin> set e
     \<Longrightarrow> \<forall>x\<in>set (foldl (cleanStep True) acc es). plain x"
proof (induction es arbitrary: acc)
  case Nil
  then show ?case by simp
next
  case (Cons e es)
  have "\<forall>x\<in>set (cleanStep True acc e). plain x"
    by (rule cleanStep_rooted_plain) (use Cons.prems in auto)
  then show ?case using Cons by simp
qed

lemma resolve_plain: "\<forall>x\<in>set (resolve s p). plain x"
proof -
  have "\<forall>x\<in>set (foldl (cleanStep True) [] (splitSlash q)). plain x" for q
    by (rule foldl_rooted_plain) (auto dest: splitSlash_elems)
  then show ?thesis unfolding resolve_def by simp
qed

lemma cleanStep_kept:
  assumes "\<forall>x\<in>set out. kept x" and "CHR ''/'' \<notin> set e"
  shows "\<forall>x\<in>set (cleanStep r out e). kept x"
  using assms by (cases out) (auto simp: cleanStep_def kept_def)

lemma foldl_kept:
  "\<forall>x\<in>set acc. kept x \<Longrightarrow> \<forall>e\<in>set es. CHR ''/'' \<notin> set e
     \<Longrightarrow> \<forall>x\<in>set (foldl (cleanStep r) acc es). kept x"
proof (induction es arbitrary: acc)
  case Nil
  then show ?case by simp
next
  case (Cons e es)
  have "\<forall>x\<in>set (cleanStep r acc e). kept x"
    by (rule cleanStep_kept) (use Cons.prems in auto)
  then show ?case using Cons by simp
qed

text \<open>Scanning the cleaned elements again, rooted, is scanning the elements.\<close>

lemma rescan:
  "\<forall>e\<in>set es. CHR ''/'' \<notin> set e \<Longrightarrow>
   foldl (cleanStep True) A (rev (foldl (cleanStep False) [] es)) = foldl (cleanStep True) A es"
proof (induction es rule: rev_induct)
  case Nil
  then show ?case by simp
next
  case (snoc e es)
  let ?O = "foldl (cleanStep False) [] es"
  have IH: "foldl (cleanStep True) A (rev ?O) = foldl (cleanStep True) A es"
    using snoc by simp
  have k: "\<forall>x\<in>set ?O. kept x"
    by (rule foldl_kept) (use snoc.prems in auto)
  show ?case
  proof (cases "e = ''..'' \<and> ?O \<noteq> [] \<and> hd ?O \<noteq> ''..''")
    case True
    then obtain x O' where O: "?O = x # O'" by (cases ?O) auto
    have px: "plain x" using k O True by (auto simp: kept_def plain_def)
    have e: "e = ''..''" using True by simp
    have l: "cleanStep False ?O e = O'" using O True by (simp add: cleanStep_def)
    have "foldl (cleanStep True) A es = foldl (cleanStep True) A (rev O' @ [x])"
      using IH O by simp
    also have "\<dots> = x # foldl (cleanStep True) A (rev O')"
      using px by (simp add: cleanStep_plain)
    finally have r: "foldl (cleanStep True) A es = x # foldl (cleanStep True) A (rev O')" .
    have "cleanStep True (x # foldl (cleanStep True) A (rev O')) ''..'' = foldl (cleanStep True) A (rev O')"
      using px by (simp add: cleanStep_def plain_def)
    then show ?thesis using l r e by simp
  next
    case False
    define S where "S = foldl (cleanStep True) A es"
    show ?thesis
    proof (cases "e = [] \<or> e = ''.''")
      case True
      then have "cleanStep False ?O e = ?O" and "cleanStep True S e = S"
        by (auto simp: cleanStep_def)
      then show ?thesis using IH S_def by simp
    next
      case False
      with \<open>\<not> (e = ''..'' \<and> ?O \<noteq> [] \<and> hd ?O \<noteq> ''..'')\<close>
      have "cleanStep False ?O e = e # ?O"
        by (auto simp: cleanStep_def)
      then show ?thesis using IH by simp
    qed
  qed
qed

lemma rescan_rooted:
  "\<forall>e\<in>set es. CHR ''/'' \<notin> set e \<Longrightarrow>
   foldl (cleanStep True) [] (rev (foldl (cleanStep True) [] es)) = foldl (cleanStep True) [] es"
proof -
  assume a: "\<forall>e\<in>set es. CHR ''/'' \<notin> set e"
  have "\<forall>x\<in>set (foldl (cleanStep True) [] es). plain x"
    by (rule foldl_rooted_plain) (use a in auto)
  then show ?thesis by (simp add: foldl_cleanStep_plain)
qed

lemma IsAbs_iff: "IsAbs p \<longleftrightarrow> (\<exists>q. p = CHR ''/'' # q)"
  by (auto simp: IsAbs_def prefix_def)

lemma joinSlash_snoc: "ys \<noteq> [] \<Longrightarrow> joinSlash (ys @ [y]) = joinSlash ys @ CHR ''/'' # y"
  by (induction ys rule: joinSlash.induct) auto

lemma joinSlash_hd: "xs \<noteq> [] \<Longrightarrow> hd xs \<noteq> [] \<Longrightarrow> joinSlash xs \<noteq> [] \<and> hd (joinSlash xs) = hd (hd xs)"
  by (induction xs rule: joinSlash.induct) auto

lemma joinSlash_not_abs:
  assumes "xs \<noteq> []" and "\<forall>x\<in>set xs. kept x"
  shows "\<not> IsAbs (joinSlash xs)"
proof -
  have h: "hd xs \<noteq> [] \<and> CHR ''/'' \<notin> set (hd xs)"
    using assms by (cases xs) (auto simp: kept_def)
  then have "joinSlash xs \<noteq> [] \<and> hd (joinSlash xs) = hd (hd xs)"
    using assms joinSlash_hd by blast
  moreover have "hd (hd xs) \<noteq> CHR ''/''"
    using h by (cases "hd xs") auto
  ultimately show ?thesis by (auto simp: IsAbs_iff)
qed

lemma unrooted_kept: "\<forall>x\<in>set (foldl (cleanStep r) [] (splitSlash p)). kept x"
  by (rule foldl_kept) (auto dest: splitSlash_elems)

lemma rooted_plain: "\<forall>x\<in>set (foldl (cleanStep True) [] (splitSlash p)). plain x"
  by (rule foldl_rooted_plain) (auto dest: splitSlash_elems)

lemma plain_noslash: "plain x \<Longrightarrow> CHR ''/'' \<notin> set x"
  by (simp add: plain_def)

lemma kept_noslash: "kept x \<Longrightarrow> CHR ''/'' \<notin> set x"
  by (simp add: kept_def)

lemma Clean_abs: "IsAbs p \<Longrightarrow> Clean p = CHR ''/'' # joinSlash (rev (foldl (cleanStep True) [] (splitSlash p)))"
  by (auto simp: Clean_def Let_def IsAbs_iff)

lemma Clean_rel:
  "\<not> IsAbs p \<Longrightarrow> p \<noteq> [] \<Longrightarrow>
   Clean p = (if foldl (cleanStep False) [] (splitSlash p) = [] then ''.''
              else joinSlash (rev (foldl (cleanStep False) [] (splitSlash p))))"
  by (simp add: Clean_def Let_def)

lemma IsAbs_Clean: "p \<noteq> [] \<Longrightarrow> IsAbs (Clean p) = IsAbs p"
proof (cases "IsAbs p")
  case True
  then show ?thesis by (simp add: Clean_abs) (simp add: IsAbs_iff)
next
  case False
  assume ne: "p \<noteq> []"
  let ?O = "foldl (cleanStep False) [] (splitSlash p)"
  show ?thesis
  proof (cases "?O = []")
    case True
    then have "Clean p = ''.''" using False ne by (simp add: Clean_rel)
    then show ?thesis using False by (simp add: IsAbs_iff)
  next
    case n: False
    have "\<not> IsAbs (joinSlash (rev ?O))"
      by (rule joinSlash_not_abs) (use n unrooted_kept[of False p] in auto)
    then show ?thesis using False ne n by (simp add: Clean_rel)
  qed
qed

lemma cleanStep_empty: "cleanStep r A [] = A"
  by (simp add: cleanStep_def)

lemma resolve_abs: "IsAbs p \<Longrightarrow> resolve s p = rev (foldl (cleanStep True) [] (splitSlash p))"
  by (simp add: resolve_def)

lemma resolve_rel:
  "\<not> IsAbs p \<Longrightarrow>
   resolve s p = rev (foldl (cleanStep True) (foldl (cleanStep True) [] (splitSlash (cwd s))) (splitSlash p))"
  by (simp add: resolve_def splitSlash_append)

lemma resolve_Clean: "p \<noteq> [] \<Longrightarrow> resolve s (Clean p) = resolve s p"
proof (cases "IsAbs p")
  case True
  assume ne: "p \<noteq> []"
  let ?O = "foldl (cleanStep True) [] (splitSlash p)"
  have pl: "\<forall>x\<in>set ?O. plain x" by (rule rooted_plain)
  have c: "Clean p = CHR ''/'' # joinSlash (rev ?O)" using True by (rule Clean_abs)
  have "foldl (cleanStep True) [] (splitSlash (joinSlash (rev ?O))) = ?O"
  proof (cases "?O = []")
    case True
    then show ?thesis by (simp add: cleanStep_def)
  next
    case False
    then have "splitSlash (joinSlash (rev ?O)) = rev ?O"
      using pl by (intro splitSlash_joinSlash) (auto dest: plain_noslash)
    then show ?thesis using pl by (simp add: foldl_cleanStep_plain)
  qed
  then have "resolve s (Clean p) = rev ?O"
    using c by (simp add: resolve_abs IsAbs_iff cleanStep_empty)
  then show ?thesis using True by (simp add: resolve_abs)
next
  case False
  assume ne: "p \<noteq> []"
  let ?O = "foldl (cleanStep False) [] (splitSlash p)"
  let ?A = "foldl (cleanStep True) [] (splitSlash (cwd s))"
  have k: "\<forall>x\<in>set ?O. kept x" by (rule unrooted_kept)
  have nc: "\<not> IsAbs (Clean p)" using False ne by (simp add: IsAbs_Clean)
  have rs: "foldl (cleanStep True) ?A (rev ?O) = foldl (cleanStep True) ?A (splitSlash p)"
    by (rule rescan) (auto dest: splitSlash_elems)
  have "foldl (cleanStep True) ?A (splitSlash (Clean p)) = foldl (cleanStep True) ?A (rev ?O)"
  proof (cases "?O = []")
    case True
    then have "Clean p = ''.''" using False ne by (simp add: Clean_rel)
    then show ?thesis using True by (simp add: cleanStep_def)
  next
    case n: False
    then have "Clean p = joinSlash (rev ?O)" using False ne by (simp add: Clean_rel)
    moreover have "splitSlash (joinSlash (rev ?O)) = rev ?O"
      using k n by (intro splitSlash_joinSlash) (auto dest: kept_noslash)
    ultimately show ?thesis by simp
  qed
  then show ?thesis using rs nc False by (simp add: resolve_rel)
qed

lemma resolve_slash:
  assumes "a \<noteq> []"
  shows "resolve s (a @ CHR ''/'' # b) = rev (foldl (cleanStep True) (rev (resolve s a)) (splitSlash b))"
proof (cases "IsAbs a")
  case True
  then have "IsAbs (a @ CHR ''/'' # b)" by (auto simp: IsAbs_iff)
  then show ?thesis using True by (simp add: resolve_abs splitSlash_append)
next
  case False
  then have "\<not> IsAbs (a @ CHR ''/'' # b)" using assms by (cases a) (auto simp: IsAbs_iff)
  then show ?thesis using False by (simp add: resolve_rel splitSlash_append)
qed

lemma resolve_empty: "resolve s [] = rev (foldl (cleanStep True) [] (splitSlash (cwd s)))"
  by (simp add: resolve_def IsAbs_iff splitSlash_append cleanStep_def)

text \<open>Joining plain names to a path appends them to the directory the path names.\<close>

lemma resolve_Join_plain:
  assumes "xs \<noteq> []" and "\<forall>x\<in>set xs. plain x"
  shows "resolve s (Join a (joinSlash xs)) = resolve s a @ xs"
proof -
  let ?b = "joinSlash xs"
  have sp: "splitSlash ?b = xs"
    using assms by (intro splitSlash_joinSlash) (auto dest: plain_noslash)
  have k: "\<forall>x\<in>set xs. kept x" using assms by (auto simp: plain_def kept_def)
  have nb: "?b \<noteq> []" "\<not> IsAbs ?b"
    using assms k joinSlash_not_abs[of xs] joinSlash_hd[of xs]
    by (cases xs; auto simp: kept_def)+
  show ?thesis
  proof (cases "a = []")
    case True
    then have "resolve s (Join a ?b) = resolve s ?b"
      using nb by (simp add: Join_def resolve_Clean)
    also have "\<dots> = resolve s [] @ xs"
      using nb sp assms by (simp add: resolve_rel resolve_empty foldl_cleanStep_plain)
    finally show ?thesis using True by simp
  next
    case False
    then have "resolve s (Join a ?b) = resolve s (a @ CHR ''/'' # ?b)"
      by (simp add: Join_def resolve_Clean)
    also have "\<dots> = resolve s a @ xs"
      using False sp assms by (simp add: resolve_slash foldl_cleanStep_plain)
    finally show ?thesis .
  qed
qed

section \<open>Parent paths\<close>

lemma weight_simps [simp]:
  "weight [] = 0" "weight (x # xs) = Suc (length x) + weight xs"
  "weight (xs @ ys) = weight xs + weight ys"
  by (simp_all add: weight_def)

lemma weight_joinSlash: "xs \<noteq> [] \<Longrightarrow> Suc (length (joinSlash xs)) = weight xs"
  by (induction xs rule: joinSlash.induct) auto

lemma weight_splitSlash: "weight (splitSlash s) = Suc (length s)"
proof (induction s)
  case Nil
  show ?case by simp
next
  case (Cons c cs)
  obtain x xs where s: "splitSlash cs = x # xs"
    using splitSlash_nonempty by (cases "splitSlash cs") auto
  show ?case using Cons s by auto
qed

lemma weight_rev: "weight (rev xs) = weight xs"
  by (induction xs) auto

lemma weight_tl: "weight (tl xs) \<le> weight xs"
  by (cases xs) auto

lemma weight_cleanStep: "weight (cleanStep r out e) \<le> weight out + Suc (length e)"
  using weight_tl[of out] by (auto simp: cleanStep_def)

lemma weight_foldl: "weight (foldl (cleanStep r) acc es) \<le> weight acc + weight es"
proof (induction es arbitrary: acc)
  case Nil
  show ?case by simp
next
  case (Cons e es)
  have "weight (foldl (cleanStep r) (cleanStep r acc e) es) \<le> weight (cleanStep r acc e) + weight es"
    by (rule Cons.IH)
  also have "\<dots> \<le> weight acc + Suc (length e) + weight es"
    using weight_cleanStep[of r acc e] by simp
  finally show ?case by simp
qed

text \<open>The part of a path that \<open>Dir\<close> cleans: empty, or ending in the last slash.\<close>

lemma upto_last_slash_ex:
  "(rev (dropWhile (\<lambda>c. c \<noteq> CHR ''/'') (rev p)) = [] \<and> CHR ''/'' \<notin> set p) \<or>
   (\<exists>q t. rev (dropWhile (\<lambda>c. c \<noteq> CHR ''/'') (rev p)) = q @ ''/'' \<and> p = q @ CHR ''/'' # t \<and> CHR ''/'' \<notin> set t)"
proof (induction p rule: rev_induct)
  case Nil
  show ?case by simp
next
  case (snoc c p)
  show ?case
  proof (cases "c = CHR ''/''")
    case True
    then show ?thesis by simp
  next
    case False
    from snoc show ?thesis
    proof
      assume "rev (dropWhile (\<lambda>c. c \<noteq> CHR ''/'') (rev p)) = [] \<and> CHR ''/'' \<notin> set p"
      then show ?thesis using False by simp
    next
      assume "\<exists>q t. rev (dropWhile (\<lambda>c. c \<noteq> CHR ''/'') (rev p)) = q @ ''/'' \<and> p = q @ CHR ''/'' # t \<and> CHR ''/'' \<notin> set t"
      then obtain q t where "rev (dropWhile (\<lambda>c. c \<noteq> CHR ''/'') (rev p)) = q @ ''/''"
        "p = q @ CHR ''/'' # t" "CHR ''/'' \<notin> set t" by blast
      then have "rev (dropWhile (\<lambda>c. c \<noteq> CHR ''/'') (rev (p @ [c]))) = q @ ''/'' \<and> p @ [c] = q @ CHR ''/'' # (t @ [c]) \<and> CHR ''/'' \<notin> set (t @ [c])"
        using False by simp
      then show ?thesis by blast
    qed
  qed
qed

lemma upto_last_slash:
  obtains "rev (dropWhile (\<lambda>c. c \<noteq> CHR ''/'') (rev p)) = []" and "CHR ''/'' \<notin> set p"
  | q t where "rev (dropWhile (\<lambda>c. c \<noteq> CHR ''/'') (rev p)) = q @ ''/''" and "p = q @ CHR ''/'' # t"
    and "CHR ''/'' \<notin> set t"
  using upto_last_slash_ex[of p] by blast

lemma Dir_noslash: "CHR ''/'' \<notin> set p \<Longrightarrow> Dir p = ''.''"
proof -
  assume "CHR ''/'' \<notin> set p"
  then have "dropWhile (\<lambda>c. c \<noteq> CHR ''/'') (rev p) = []" by auto
  then show ?thesis by (simp add: Dir_def Clean_def)
qed

lemma Dir_slash: "CHR ''/'' \<notin> set t \<Longrightarrow> Dir (q @ CHR ''/'' # t) = Clean (q @ ''/'')"
proof -
  assume "CHR ''/'' \<notin> set t"
  then have "dropWhile (\<lambda>c. c \<noteq> CHR ''/'') (rev t @ CHR ''/'' # rev q) = CHR ''/'' # rev q"
    by (subst dropWhile_append2) auto
  then show ?thesis by (simp add: Dir_def)
qed

lemma Dir_relative:
  assumes "\<not> IsAbs p"
  shows "Dir p = ''.'' \<or> (\<not> IsAbs (Dir p) \<and> length (Dir p) < length p)"
proof (cases p rule: upto_last_slash)
  case 1
  then show ?thesis by (simp add: Dir_noslash)
next
  case (2 q t)
  let ?q = "q @ ''/''"
  have d: "Dir p = Clean ?q" using 2 by (simp add: Dir_slash)
  have nq: "\<not> IsAbs ?q" using assms 2 by (cases q) (auto simp: IsAbs_iff)
  let ?O = "foldl (cleanStep False) [] (splitSlash ?q)"
  show ?thesis
  proof (cases "?O = []")
    case True
    then show ?thesis using d nq by (simp add: Clean_rel)
  next
    case False
    have c: "Clean ?q = joinSlash (rev ?O)" using False nq by (simp add: Clean_rel)
    have "\<not> IsAbs (Clean ?q)" using nq by (simp add: IsAbs_Clean)
    moreover have "length (joinSlash (rev ?O)) < length p"
    proof -
      have "?O = foldl (cleanStep False) [] (splitSlash q)"
        by (simp add: splitSlash_append cleanStep_empty)
      then have "weight ?O \<le> weight (splitSlash q)"
        using weight_foldl[of False "[]" "splitSlash q"] by simp
      then have "weight (rev ?O) \<le> Suc (length q)"
        by (simp only: weight_splitSlash weight_rev)
      moreover have "Suc (length (joinSlash (rev ?O))) = weight (rev ?O)"
        using False by (intro weight_joinSlash) simp
      ultimately show ?thesis using 2 by simp
    qed
    ultimately show ?thesis using d c by simp
  qed
qed

lemma Dir_rooted: "IsAbs p \<Longrightarrow> IsAbs (Dir p)"
proof (cases p rule: upto_last_slash)
  case 1
  assume "IsAbs p"
  then obtain r where "p = CHR ''/'' # r" unfolding IsAbs_iff by blast
  then have False using 1(2) by simp
  then show ?thesis ..
next
  case (2 q t)
  assume "IsAbs p"
  then have "IsAbs (q @ ''/'')" using 2 by (cases q) (auto simp: IsAbs_iff)
  then have "IsAbs (Clean (q @ ''/''))" by (simp add: IsAbs_Clean)
  then show ?thesis using 2 by (simp add: Dir_slash)
qed

lemma Dir_chain_rooted: "IsAbs p \<Longrightarrow> IsAbs ((Dir ^^ k) p)"
  by (induction k) (simp_all add: Dir_rooted)

lemma Dir_plain:
  assumes "\<forall>x\<in>set (xs @ [x]). plain x"
  shows "Dir (joinSlash (xs @ [x])) = (if xs = [] then ''.'' else joinSlash xs)"
proof (cases "xs = []")
  case True
  then show ?thesis using assms by (simp add: Dir_noslash plain_def)
next
  case False
  have px: "CHR ''/'' \<notin> set x" using assms by (simp add: plain_def)
  have k: "\<forall>y\<in>set xs. kept y" using assms by (auto simp: plain_def kept_def)
  have "hd xs \<noteq> []" using False k by (cases xs) (auto simp: kept_def)
  then have "joinSlash xs \<noteq> []" using False joinSlash_hd by blast
  then have na: "\<not> IsAbs (joinSlash xs @ ''/'')"
    using joinSlash_not_abs[OF False k] by (cases "joinSlash xs") (auto simp: IsAbs_iff)
  have sp: "splitSlash (joinSlash xs) = xs"
    using False assms by (intro splitSlash_joinSlash) (auto dest: plain_noslash)
  have "Dir (joinSlash (xs @ [x])) = Clean (joinSlash xs @ ''/'')"
    using False px by (simp add: joinSlash_snoc Dir_slash)
  also have "\<dots> = joinSlash xs"
    using na False assms sp
    by (simp add: Clean_rel splitSlash_append cleanStep_empty foldl_cleanStep_plain)
  finally show ?thesis using False by simp
qed

section \<open>The file tree: walking, unlinking, creating\<close>

lemma walk_Cons:
  "walk n (x # xs) =
     (case n of
        Directory es \<Rightarrow> (case map_of es x of None \<Rightarrow> Inl ENOENT | Some c \<Rightarrow> walk c xs)
      | File b \<Rightarrow> Inl ENOTDIR
      | Symlink t \<Rightarrow> Inl ELOOP)"
  by (cases n) simp_all

lemma walk_append:
  "walk n (xs @ ys) = (case walk n xs of Inl e \<Rightarrow> Inl e | Inr c \<Rightarrow> walk c ys)"
proof (induction xs arbitrary: n)
  case Nil
  show ?case by simp
next
  case (Cons x xs)
  show ?case by (cases n) (simp_all add: Cons split: option.splits)
qed

lemma update_at_Cons:
  "xs \<noteq> [] \<Longrightarrow>
   update_at (x # xs) f (Directory es) =
     (case map_of es x of
        None \<Rightarrow> Inl ENOENT
      | Some c \<Rightarrow>
          (case update_at xs f c of
             Inl e \<Rightarrow> Inl e
           | Inr c' \<Rightarrow> Inr (Directory (AList.update x c' es))))"
  by (cases xs) (auto split: option.splits)

lemma map_of_update [simp]: "map_of (AList.update k v al) k = Some v"
  by (simp add: update_conv')

lemma map_of_delete [simp]: "map_of (AList.delete k al) k = None"
  by (simp add: delete_conv')

lemma map_of_update_other: "k' \<noteq> k \<Longrightarrow> map_of (AList.update k v al) k' = map_of al k'"
  by (simp add: update_conv')

lemma map_of_delete_other: "k' \<noteq> k \<Longrightarrow> map_of (AList.delete k al) k' = map_of al k'"
  by (simp add: delete_conv')

text \<open>Unlinking an entry: afterwards the path is missing.\<close>

lemma unlink_missing:
  "update_at xs (\<lambda>n. Inr None) n = Inr n' \<Longrightarrow> walk n' xs = Inl ENOENT"
proof (induction xs "\<lambda>n::node option. (Inr None :: errno + node option)" n arbitrary: n'
    rule: update_at.induct)
  case (1 n)
  then show ?case by simp
next
  case (2 x es)
  then show ?case by auto
next
  case (3 x y ys es)
  then show ?case by (auto split: option.splits sum.splits)
next
  case (4 x xs b)
  then show ?case by simp
next
  case (5 x xs t)
  then show ?case by simp
qed

lemma unlink_enoent:
  "update_at xs (\<lambda>n. Inr None) n = Inl ENOENT \<Longrightarrow> walk n xs = Inl ENOENT"
proof (induction xs "\<lambda>n::node option. (Inr None :: errno + node option)" n
    rule: update_at.induct)
  case (1 n)
  then show ?case by simp
next
  case (2 x es)
  then show ?case by auto
next
  case (3 x y ys es)
  then show ?case by (auto split: option.splits sum.splits)
next
  case (4 x xs b)
  then show ?case by simp
next
  case (5 x xs t)
  then show ?case by simp
qed

lemma unlink_present:
  "xs \<noteq> [] \<Longrightarrow> walk n xs = Inr c \<Longrightarrow> \<exists>n'. update_at xs (\<lambda>n. Inr None) n = Inr n'"
proof (induction xs "\<lambda>n::node option. (Inr None :: errno + node option)" n
    rule: update_at.induct)
  case (1 n)
  then show ?case by simp
next
  case (2 x es)
  then show ?case by auto
next
  case (3 x y ys es)
  then show ?case by (auto split: option.splits sum.splits)
next
  case (4 x xs b)
  then show ?case by simp
next
  case (5 x xs t)
  then show ?case by simp
qed

text \<open>\<open>MkdirAll\<close> below a missing entry creates a chain of fresh, empty directories.\<close>

lemma mkdir_all_fresh: "\<exists>n'. mkdir_all xs None = Inr n' \<and> walk n' xs = Inr (Directory [])"
  by (induction xs) auto

lemma mkdir_all_missing:
  "walk n xs = Inl ENOENT \<Longrightarrow>
   \<exists>n'. mkdir_all xs (Some n) = Inr n' \<and> walk n' xs = Inr (Directory [])"
proof (induction xs arbitrary: n)
  case Nil
  then show ?case by simp
next
  case (Cons x xs)
  then obtain es where n: "n = Directory es" by (cases n) auto
  show ?case
  proof (cases "map_of es x")
    case None
    obtain c where "mkdir_all xs None = Inr c" "walk c xs = Inr (Directory [])"
      using mkdir_all_fresh by blast
    then show ?thesis using n None by simp
  next
    case (Some c)
    then have "walk c xs = Inl ENOENT" using Cons.prems n by simp
    then obtain c' where "mkdir_all xs (Some c) = Inr c'" "walk c' xs = Inr (Directory [])"
      using Cons.IH by blast
    then show ?thesis using n Some by simp
  qed
qed

text \<open>Writing a file into a directory that has no entry of that name, or a file there.\<close>

lemma write_into_dir:
  "walk n xs = Inr (Directory es) \<Longrightarrow> write_entry b (map_of es m) = Inr (Some (File b)) \<Longrightarrow>
   \<exists>n'. update_at (xs @ [m]) (write_entry b) n = Inr n' \<and>
        walk n' xs = Inr (Directory (AList.update m (File b) es))"
proof (induction xs arbitrary: n)
  case Nil
  then show ?case by simp
next
  case (Cons x xs)
  then obtain es0 c where n: "n = Directory es0" "map_of es0 x = Some c" "walk c xs = Inr (Directory es)"
    by (cases n) (auto split: option.splits)
  obtain c' where c: "update_at (xs @ [m]) (write_entry b) c = Inr c'"
      "walk c' xs = Inr (Directory (AList.update m (File b) es))"
    using Cons.IH[OF n(3) Cons.prems(2)] by blast
  show ?case using n c by (simp add: update_at_Cons)
qed

section \<open>Construction: the output path and the working directory\<close>

text \<open>
  C7. The claim: a destination root that is not a strict subdirectory of the working
  directory is fatal at construction. \<open>InitVendorDir\<close> tests
  \<open>strings.HasPrefix(basePath, wd)\<close> on the strings, so a sibling directory whose name
  starts with the name of the working directory passes: in \<open>/w\<close>, the output path
  \<open>../w-vendor\<close> is \<open>/w-vendor\<close>, which is not below \<open>/w\<close>, and construction
  returns a \<open>VendorDir\<close> for it instead of ending the run.
\<close>

theorem InitVendorDir_accepts_sibling:
  "\<not> strictSubdir (cwd world7) (Abs (cwd world7) (BasePath options7)) \<and>
   InitVendorDir Compile m ds options7 world7 =
     Return \<lparr>basePath = ''/w-vendor'', modFileContent = [], gomod = m, deps = ds,
             filter' = None, debug = False, quiet = False\<rparr> world7"
proof -
  have a: "Abs (cwd world7) (BasePath options7) = ''/w-vendor''" by code_simp
  have c: "cwd world7 = ''/w''" by code_simp
  have n: "\<not> strictSubdir ''/w'' ''/w-vendor''" by code_simp
  have h: "HasPrefix ''/w-vendor'' ''/w''" by code_simp
  have o: "Filter options7 = []" "Debug options7 = False" "Quiet options7 = False"
    by (simp_all add: options7_def)
  show ?thesis
    using a c n h o by (simp add: InitVendorDir_def Let_def)
qed

section \<open>The pruning loop\<close>

lemma attempt_cases:
  "(\<exists>e. r = Inl e \<and> attempt c r s = Err e (s\<lparr>trace := trace s @ [c]\<rparr>)) \<or>
   (\<exists>n. r = Inr n \<and> attempt c r s = Ok (s\<lparr>root := n, trace := trace s @ [c]\<rparr>))"
  by (cases r) (simp_all add: attempt_def)

lemma os_Remove_Ok: "os_Remove p s = Ok s1 \<Longrightarrow> trace s1 = trace s @ [SysRemove p] \<and> cwd s1 = cwd s"
  unfolding os_Remove_def
  using attempt_cases[of "if p = [] then Inl ENOENT else update_at (resolve s p) remove_entry (root s)" "SysRemove p" s]
  by auto

lemma os_Remove_Err: "os_Remove p s = Err e s1 \<Longrightarrow> s1 = s\<lparr>trace := trace s @ [SysRemove p]\<rparr>"
  unfolding os_Remove_def
  using attempt_cases[of "if p = [] then Inl ENOENT else update_at (resolve s p) remove_entry (root s)" "SysRemove p" s]
  by auto

lemma resolve_cwd: "cwd s1 = cwd s \<Longrightarrow> resolve s1 p = resolve s p"
  by (simp add: resolve_def)

lemma prune_dot: "prune (Suc n) v ''.'' s = Return () s"
  by simp

lemma prune_fuel:
  "\<not> IsAbs p \<Longrightarrow> length p + 1 < n \<Longrightarrow> prune n v p s \<noteq> Diverge"
proof (induction n arbitrary: p s)
  case 0
  then show ?case by simp
next
  case (Suc n)
  obtain k where k: "n = Suc k" using Suc.prems(2) by (cases n) auto
  have next_ok: "prune n v (Dir p) s1 \<noteq> Diverge" for s1
    using Dir_relative[OF Suc.prems(1)]
  proof
    assume "Dir p = ''.''"
    then show ?thesis using k by simp
  next
    assume "\<not> IsAbs (Dir p) \<and> length (Dir p) < length p"
    then show ?thesis using Suc.IH[of "Dir p" s1] Suc.prems(2) by simp
  qed
  show ?case
  proof (cases "p = ''.''")
    case True
    then show ?thesis by simp
  next
    case False
    then show ?thesis using next_ok
      by (cases "remove v (vendPath v p) s") (simp_all)
  qed
qed

lemma stuck:
  "root s = Directory [(''w'', Directory [])] \<Longrightarrow> prune n vendor10 ''/'' s = Diverge"
proof (induction n arbitrary: s)
  case 0
  show ?case by simp
next
  case (Suc n)
  have p: "vendPath vendor10 ''/'' = ''/w/v''" by code_simp
  have r: "resolve s ''/w/v'' = [''w'', ''v'']" by code_simp
  have d: "Dir ''/'' = ''/''" by code_simp
  have "os_Remove ''/w/v'' s = Err ENOENT (s\<lparr>trace := trace s @ [SysRemove ''/w/v'']\<rparr>)"
    using Suc.prems r by (simp add: os_Remove_def attempt_def)
  then show ?case using p d Suc by (simp add: remove_def)
qed

lemma prune_rooted_diverges: "prune n vendor10 ''/x'' world10 = Diverge"
proof (cases n)
  case 0
  then show ?thesis by simp
next
  case (Suc m)
  have p: "vendPath vendor10 ''/x'' = ''/w/v/x''" "vendPath vendor10 ''/'' = ''/w/v''" by code_simp+
  have r: "resolve s ''/w/v/x'' = [''w'', ''v'', ''x'']" "resolve s ''/w/v'' = [''w'', ''v'']" for s
    by code_simp+
  have d: "Dir ''/x'' = ''/''" "Dir ''/'' = ''/''" by code_simp+
  have 1: "os_Remove ''/w/v/x'' world10 = Err ENOENT (world10\<lparr>trace := trace world10 @ [SysRemove ''/w/v/x'']\<rparr>)"
    using r by (simp add: os_Remove_def attempt_def world10_def)
  let ?s1 = "world10\<lparr>trace := trace world10 @ [SysRemove ''/w/v/x'']\<rparr>"
  have 2: "os_Remove ''/w/v'' ?s1 = Ok (?s1\<lparr>root := Directory [(''w'', Directory [])], trace := trace ?s1 @ [SysRemove ''/w/v'']\<rparr>)"
    using r by (simp add: os_Remove_def attempt_def world10_def)
  show ?thesis
  proof (cases m)
    case 0
    then show ?thesis using Suc 1 p d by (simp add: remove_def)
  next
    case (Suc k)
    have "prune k vendor10 ''/'' (?s1\<lparr>root := Directory [(''w'', Directory [])], trace := trace ?s1 @ [SysRemove ''/w/v'']\<rparr>) = Diverge"
      by (rule stuck) simp
    then show ?thesis using \<open>n = Suc m\<close> Suc 1 2 p d
      by (simp add: remove_def) 
  qed
qed

text \<open>
  C10. For a dependency path that is relative (not empty, or empty), the loop
  \<open>for p := d.Path; p != "."; p = filepath.Dir(p)\<close> ends: with more fuel than the
  path has bytes plus one, \<open>prune\<close> does not run out of fuel, whatever the removals
  answer. For a rooted path every parent is rooted again, so the parent chain never
  reaches \<open>.\<close>, and the loop need not end: for the dependency path \<open>/x\<close> and an empty
  vendor directory it removes the vendor directory and then finds it missing for ever.
\<close>

theorem prune_terminates_relative:
  "(\<not> IsAbs p \<longrightarrow> (\<forall>n > length p + 1. prune n v p s \<noteq> Diverge)) \<and>
   (IsAbs p \<longrightarrow> (\<forall>k. (Dir ^^ k) p \<noteq> ''.'')) \<and>
   (\<forall>n. prune n vendor10 ''/x'' world10 = Diverge)"
proof (intro conjI impI allI)
  fix n assume "\<not> IsAbs p" "length p + 1 < n"
  then show "prune n v p s \<noteq> Diverge" by (rule prune_fuel)
next
  fix k assume "IsAbs p"
  then have "IsAbs ((Dir ^^ k) p)" by (rule Dir_chain_rooted)
  then show "(Dir ^^ k) p \<noteq> ''.''" by (auto simp: IsAbs_iff)
next
  fix n show "prune n vendor10 ''/x'' world10 = Diverge" by (rule prune_rooted_diverges)
qed

theorem prune_terminates_relative_witness:
  "\<not> IsAbs ''github.com/a/b'' \<and> prune 20 vendor10 ''github.com/a/b'' world10 \<noteq> Diverge \<and>
   IsAbs ''/x'' \<and> (Dir ^^ 3) ''/x'' \<noteq> ''.''"
proof -
  have a: "\<not> IsAbs ''github.com/a/b''" by code_simp
  have b: "IsAbs ''/x''" by code_simp
  have l: "length ''github.com/a/b'' + 1 < (20::nat)" by simp
  show ?thesis
    using prune_terminates_relative[of "''github.com/a/b''" vendor10 world10]
      prune_terminates_relative[of "''/x''" vendor10 world10] a b l
    by blast
qed

section \<open>The ancestor walk after a filtered copy\<close>

lemma update_at_error:
  "xs \<noteq> [] \<Longrightarrow> walk n xs = Inr c \<Longrightarrow> f (Some c) = Inl e \<Longrightarrow> update_at xs f n = Inl e"
proof (induction xs f n rule: update_at.induct)
  case (1 f n)
  then show ?case by simp
next
  case (2 x f es)
  then show ?case by (auto split: option.splits)
next
  case (3 x y ys f es)
  then show ?case by (auto split: option.splits)
next
  case (4 x xs f b)
  then show ?case by simp
next
  case (5 x xs f t)
  then show ?case by simp
qed

lemma joinSlash_plain_not_dot:
  assumes "xs \<noteq> []" and "\<forall>x\<in>set xs. plain x"
  shows "joinSlash xs \<noteq> ''.''"
proof
  assume a: "joinSlash xs = ''.''"
  have "splitSlash (joinSlash xs) = xs"
    using assms by (intro splitSlash_joinSlash) (auto dest: plain_noslash)
  then have "xs = [''.'']" using a by simp
  then have "plain ''.''" using assms(2) by simp
  then show False by (simp add: plain_def)
qed

lemma prune_trace:
  "\<forall>x\<in>set xs. plain x \<Longrightarrow> xs \<noteq> [] \<Longrightarrow>
   prune n v (joinSlash xs) s = Return u s' \<or> prune n v (joinSlash xs) s = Fatal m s' \<Longrightarrow>
   cwd s' = cwd s \<and>
   (\<exists>ops. trace s' = trace s @ ops \<and>
      (\<forall>c\<in>set ops. \<exists>ys. ys \<noteq> [] \<and> prefix ys xs \<and> c = SysRemove (vendPath v (joinSlash ys))))"
proof (induction n arbitrary: xs s)
  case 0
  then show ?case by simp
next
  case (Suc n)
  obtain ys y where xs: "xs = ys @ [y]" using Suc.prems(2) by (cases xs rule: rev_cases) auto
  let ?p = "joinSlash xs"
  let ?c = "SysRemove (vendPath v ?p)"
  have nd: "?p \<noteq> ''.''" using Suc.prems by (intro joinSlash_plain_not_dot) auto
  have d: "Dir ?p = (if ys = [] then ''.'' else joinSlash ys)"
    using Suc.prems(1) xs Dir_plain[of ys y] by simp
  have here: "\<exists>zs. zs \<noteq> [] \<and> prefix zs xs \<and> ?c = SysRemove (vendPath v (joinSlash zs))"
    using Suc.prems(2) by (intro exI[of _ xs]) simp
  have continue: "cwd s' = cwd s \<and>
     (\<exists>ops. trace s' = trace s @ ops \<and>
      (\<forall>c\<in>set ops. \<exists>zs. zs \<noteq> [] \<and> prefix zs xs \<and> c = SysRemove (vendPath v (joinSlash zs))))"
    if t: "trace s1 = trace s @ [?c]" and w: "cwd s1 = cwd s"
      and r: "prune n v (Dir ?p) s1 = Return u s' \<or> prune n v (Dir ?p) s1 = Fatal m s'" for s1
  proof (cases "ys = []")
    case True
    then have "prune n v ''.'' s1 = Return u s' \<or> prune n v ''.'' s1 = Fatal m s'"
      using r d by simp
    then have "s' = s1" by (cases n) auto
    then show ?thesis using t w here by auto
  next
    case False
    have "\<forall>x\<in>set ys. plain x" using Suc.prems(1) xs by simp
    moreover have "prune n v (joinSlash ys) s1 = Return u s' \<or> prune n v (joinSlash ys) s1 = Fatal m s'"
      using r d False by simp
    ultimately obtain ops where o: "cwd s' = cwd s1" "trace s' = trace s1 @ ops"
      "\<forall>c\<in>set ops. \<exists>zs. zs \<noteq> [] \<and> prefix zs ys \<and> c = SysRemove (vendPath v (joinSlash zs))"
      using Suc.IH[of ys s1] False by blast
    have "\<forall>c\<in>set (?c # ops). \<exists>zs. zs \<noteq> [] \<and> prefix zs xs \<and> c = SysRemove (vendPath v (joinSlash zs))"
      using o(3) here xs by (auto intro: prefix_prefix)
    then show ?thesis using o t w by (intro conjI exI[of _ "?c # ops"]) auto
  qed
  show ?case
  proof (cases "remove v (vendPath v ?p) s")
    case (Ok s1)
    then have "trace s1 = trace s @ [?c]" "cwd s1 = cwd s"
      using os_Remove_Ok[of "vendPath v ?p" s s1] by (simp_all add: remove_def)
    moreover have "prune n v (Dir ?p) s1 = Return u s' \<or> prune n v (Dir ?p) s1 = Fatal m s'"
      using Suc.prems(3) Ok nd by simp
    ultimately show ?thesis by (rule continue)
  next
    case (Err e s1)
    then have s1: "s1 = s\<lparr>trace := trace s @ [?c]\<rparr>"
      using os_Remove_Err[of "vendPath v ?p" s e s1] by (simp add: remove_def)
    show ?thesis
    proof (cases "e = ENOENT")
      case True
      then have "prune n v (Dir ?p) s1 = Return u s' \<or> prune n v (Dir ?p) s1 = Fatal m s'"
        using Suc.prems(3) Err nd by simp
      then show ?thesis using s1 by (intro continue[of s1]) auto
    next
      case False
      then have "s' = s1" using Suc.prems(3) Err nd by (auto split: if_splits)
      then show ?thesis using s1 here by auto
    qed
  qed
qed

lemma Clean_nonempty: "Clean p \<noteq> []"
proof (cases "p = [] \<or> IsAbs p")
  case True
  then show ?thesis by (auto simp: Clean_def Let_def)
next
  case False
  let ?O = "foldl (cleanStep False) [] (splitSlash p)"
  show ?thesis
  proof (cases "?O = []")
    case True
    then show ?thesis using False by (simp add: Clean_rel)
  next
    case n: False
    have k: "\<forall>x\<in>set (rev ?O). kept x" using unrooted_kept[of False p] by simp
    then have "hd (rev ?O) \<noteq> []" using n by (cases "rev ?O") (auto simp: kept_def)
    then have "joinSlash (rev ?O) \<noteq> []" using n joinSlash_hd[of "rev ?O"] by simp
    then show ?thesis using False n by (simp add: Clean_rel)
  qed
qed

lemma vendPath_nonempty: "p \<noteq> [] \<Longrightarrow> vendPath v p \<noteq> []"
  by (simp add: vendPath_def Join_def Clean_nonempty)

lemma joinSlash_plain_nonempty:
  assumes "xs \<noteq> []" and "\<forall>x\<in>set xs. plain x"
  shows "joinSlash xs \<noteq> []"
proof -
  have "hd xs \<noteq> []" using assms by (cases xs) (auto simp: plain_def)
  then show ?thesis using assms(1) joinSlash_hd by blast
qed

lemma resolve_vendPath:
  "xs \<noteq> [] \<Longrightarrow> \<forall>x\<in>set xs. plain x \<Longrightarrow>
   resolve s (vendPath v (joinSlash xs)) = resolve s (basePath v) @ xs"
  by (simp add: vendPath_def resolve_Join_plain)

lemma os_Remove_nonempty_dir:
  assumes "lookup s p = Inr (Directory (e # es))" and "resolve s p \<noteq> []"
  shows "os_Remove p s = Err ENOTEMPTY (s\<lparr>trace := trace s @ [SysRemove p]\<rparr>)"
proof -
  have p: "p \<noteq> []" and w: "walk (root s) (resolve s p) = Inr (Directory (e # es))"
    using assms(1) by (auto simp: lookup_def split: if_splits)
  have "update_at (resolve s p) remove_entry (root s) = Inl ENOTEMPTY"
    using assms(2) w by (rule update_at_error) simp
  then show ?thesis using p by (simp add: os_Remove_def attempt_def)
qed

text \<open>
  C3, as the code has it. For a dependency path made of plain names (a module path):
  a removal that reports a missing path lets the walk go on with the parent; a
  non-empty directory stops the walk at once and nothing changes; any other failure
  ends the run; and every removal the walk attempts names a path strictly below the
  vendor root, so the root itself is never tried.
\<close>

theorem prune_walk:
  assumes "xs \<noteq> []" and "\<forall>x\<in>set xs. plain x"
  shows
    "(os_Remove (vendPath v (joinSlash xs)) s = Err ENOENT s1 \<longrightarrow>
        prune (Suc n) v (joinSlash xs) s = prune n v (Dir (joinSlash xs)) s1) \<and>
     (lookup s (vendPath v (joinSlash xs)) = Inr (Directory (e # es)) \<longrightarrow>
        prune (Suc n) v (joinSlash xs) s =
          Return () (s\<lparr>trace := trace s @ [SysRemove (vendPath v (joinSlash xs))]\<rparr>)) \<and>
     (os_Remove (vendPath v (joinSlash xs)) s = Err er s1 \<and> er \<noteq> ENOENT \<and> er \<noteq> ENOTEMPTY \<longrightarrow>
        prune (Suc n) v (joinSlash xs) s = Fatal ''Error removing path'' s1) \<and>
     (prune n v (joinSlash xs) s = Return u s' \<or> prune n v (joinSlash xs) s = Fatal m s' \<longrightarrow>
        (\<exists>ops. trace s' = trace s @ ops \<and>
           (\<forall>c\<in>set ops. \<exists>q ys. c = SysRemove q \<and> ys \<noteq> [] \<and>
                resolve s q = resolve s (basePath v) @ ys)))"
proof (intro conjI impI)
  let ?p = "joinSlash xs"
  have nd: "?p \<noteq> ''.''" using assms by (rule joinSlash_plain_not_dot)
  {
    assume "os_Remove (vendPath v ?p) s = Err ENOENT s1"
    then show "prune (Suc n) v ?p s = prune n v (Dir ?p) s1"
      using nd by (simp add: remove_def)
  next
    assume "os_Remove (vendPath v ?p) s = Err er s1 \<and> er \<noteq> ENOENT \<and> er \<noteq> ENOTEMPTY"
    then show "prune (Suc n) v ?p s = Fatal ''Error removing path'' s1"
      using nd by (simp add: remove_def)
  next
    assume l: "lookup s (vendPath v ?p) = Inr (Directory (e # es))"
    have "resolve s (vendPath v ?p) \<noteq> []"
      using assms by (simp add: resolve_vendPath)
    with l have "os_Remove (vendPath v ?p) s =
        Err ENOTEMPTY (s\<lparr>trace := trace s @ [SysRemove (vendPath v ?p)]\<rparr>)"
      by (rule os_Remove_nonempty_dir)
    then show "prune (Suc n) v ?p s = Return () (s\<lparr>trace := trace s @ [SysRemove (vendPath v ?p)]\<rparr>)"
      using nd by (simp add: remove_def)
  next
    assume "prune n v ?p s = Return u s' \<or> prune n v ?p s = Fatal m s'"
    with assms obtain ops where o: "trace s' = trace s @ ops"
      "\<forall>c\<in>set ops. \<exists>ys. ys \<noteq> [] \<and> prefix ys xs \<and> c = SysRemove (vendPath v (joinSlash ys))"
      using prune_trace[of xs n v s u s' m] by blast
    have "\<exists>q ys. c = SysRemove q \<and> ys \<noteq> [] \<and> resolve s q = resolve s (basePath v) @ ys"
      if "c \<in> set ops" for c
    proof -
      from o(2) that
      have "\<exists>ys. ys \<noteq> [] \<and> prefix ys xs \<and> c = SysRemove (vendPath v (joinSlash ys))"
        by (rule bspec)
      then obtain ys where y: "ys \<noteq> []" "prefix ys xs" "c = SysRemove (vendPath v (joinSlash ys))"
        by (elim exE conjE)
      have "\<forall>x\<in>set ys. plain x" using y(2) assms(2) by (auto simp: prefix_def)
      then have "resolve s (vendPath v (joinSlash ys)) = resolve s (basePath v) @ ys"
        using y(1) by (simp add: resolve_vendPath)
      then show ?thesis using y by blast
    qed
    then show "\<exists>ops. trace s' = trace s @ ops \<and>
           (\<forall>c\<in>set ops. \<exists>q ys. c = SysRemove q \<and> ys \<noteq> [] \<and>
                resolve s q = resolve s (basePath v) @ ys)"
      using o(1) by blast
  }
qed

theorem prune_walk_witness:
  "plain ''example.com'' \<and>
   lookup world3 (vendPath vendor3 ''example.com'') =
     Inr (Directory [(''pkg2'', Directory [(''a.go'', File ''package a'')])]) \<and>
   prune 1 vendor3 ''example.com'' world3 =
     Return () (world3\<lparr>trace := trace world3 @ [SysRemove ''/w/v/example.com'']\<rparr>)"
proof -
  have p: "plain ''example.com''" by code_simp
  have vp: "vendPath vendor3 ''example.com'' = ''/w/v/example.com''" by code_simp
  have l: "lookup world3 ''/w/v/example.com'' =
     Inr (Directory [(''pkg2'', Directory [(''a.go'', File ''package a'')])])" by code_simp
  have "[''example.com''] \<noteq> [] \<and> (\<forall>x\<in>set [''example.com'']. plain x)" using p by simp
  then show ?thesis
    using prune_walk[of "[''example.com'']" vendor3 world3 _ 0 "(''pkg2'', Directory [(''a.go'', File ''package a'')])" "[]"]
      p vp l by simp
qed

text \<open>
  The claim as written covers every dependency. For the rooted dependency path
  \<open>/x\<close>, whose files the filter rejects, the walk goes from \<open>/x\<close> to \<open>/\<close>, and
  \<open>vendPath "/"\<close> is the vendor root \<open>/w/v\<close>: the last call of the run is the
  attempt to remove the root.
\<close>

theorem prune_rooted_tries_root:
  "basePath vendor3r = ''/w/v'' \<and>
   (case copyDeps 4 vendor3r (deps vendor3r) world3r of
      Return u s \<Rightarrow> trace s | Fatal m s \<Rightarrow> [] | Diverge \<Rightarrow> []) =
     [SysMkdirAll ''/w/v/x'', SysRemove ''/w/v/x'', SysRemove ''/w/v/x'', SysRemove ''/w/v'']"
  by code_simp

section \<open>The reset and the sentinel file\<close>

lemma lookup_cwd_root:
  "cwd s' = cwd s \<Longrightarrow> root s' = root s \<Longrightarrow> lookup s' p = lookup s p"
  by (simp add: lookup_def resolve_def)

lemma sentinel_path:
  "vendPath v ''modules.txt'' \<noteq> [] \<and>
   resolve s (vendPath v ''modules.txt'') = resolve s (basePath v) @ [''modules.txt'']"
proof -
  have p: "plain ''modules.txt''" by code_simp
  have "resolve s (vendPath v (joinSlash [''modules.txt''])) = resolve s (basePath v) @ [''modules.txt'']"
    by (rule resolve_vendPath) (use p in auto)
  moreover have "vendPath v ''modules.txt'' \<noteq> []" by (rule vendPath_nonempty) simp
  ultimately show ?thesis by simp
qed

text \<open>The reset when the sentinel is a file below a vendor root that is not \<open>/\<close>.\<close>

lemma clear_with_sentinel:
  assumes l: "lookup s (vendPath v ''modules.txt'') = Inr (File X)"
    and b: "basePath v \<noteq> []" and B: "resolve s (basePath v) \<noteq> []"
  shows "\<exists>s'. clear v s = Return (v\<lparr>modFileContent := X\<rparr>) s' \<and>
           lookup s' (vendPath v ''modules.txt'') = Inr (File X) \<and>
           lookup s' (basePath v) = Inr (Directory [(''modules.txt'', File X)])"
proof -
  let ?m = "''modules.txt''"
  let ?P = "vendPath v ?m"
  let ?base = "basePath v"
  let ?B = "resolve s ?base"
  let ?v1 = "v\<lparr>modFileContent := X\<rparr>"
  have P: "?P \<noteq> []" "resolve s ?P = ?B @ [?m]" using sentinel_path[of v s] by simp_all
  have w: "walk (root s) (?B @ [?m]) = Inr (File X)"
    using l P by (simp add: lookup_def)
  then obtain c where c: "walk (root s) ?B = Inr c"
    by (cases "walk (root s) ?B") (auto simp: walk_append)
  have ex: "exists v ?P s" using l by (simp add: exists_def os_Stat_def)
  have cm: "copyModFile v s = Return ?v1 s" using l by (simp add: copyModFile_def ReadFile_def)
  obtain r1 where r1: "update_at ?B (\<lambda>n. Inr None) (root s) = Inr r1"
    using unlink_present[OF B c] by blast
  have m1: "walk r1 ?B = Inl ENOENT" using r1 by (rule unlink_missing)
  define s1 where "s1 = s\<lparr>root := r1, trace := trace s @ [SysRemoveAll ?base]\<rparr>"
  have ra: "removeAll ?v1 ?base s = Return () s1"
    using b r1 by (simp add: removeAll_def os_RemoveAll_def attempt_def s1_def)
  obtain r2 where r2: "mkdir_all ?B (Some r1) = Inr r2" "walk r2 ?B = Inr (Directory [])"
    using mkdir_all_missing[OF m1] by blast
  define s2 where "s2 = s1\<lparr>root := r2, trace := trace s1 @ [SysMkdirAll ?base]\<rparr>"
  have res1: "resolve s1 q = resolve s q" for q by (simp add: resolve_def s1_def)
  have res2: "resolve s2 q = resolve s q" for q by (simp add: resolve_def s2_def s1_def)
  have mk: "os_MkdirAll ?base s1 = Ok s2"
    using b r2 res1 by (simp add: os_MkdirAll_def attempt_def s2_def) (simp add: s1_def)
  obtain r3 where r3: "update_at (?B @ [?m]) (write_entry X) r2 = Inr r3"
      "walk r3 ?B = Inr (Directory (AList.update ?m (File X) []))"
    using write_into_dir[OF r2(2), of X ?m] by auto
  define s3 where "s3 = s2\<lparr>root := r3, trace := trace s2 @ [SysWriteFile ?P]\<rparr>"
  have res3: "resolve s3 q = resolve s q" for q by (simp add: resolve_def s3_def s2_def s1_def)
  have wf: "writeModFile ?v1 s2 = Return () s3"
    using P r3 res2 by (simp add: writeModFile_def WriteFile_def attempt_def s3_def vendPath_def) (simp add: s2_def)
  have "clear v s = Return ?v1 s3"
    using ex cm ra mk wf by (simp add: clear_def vendPath_def)
  moreover have "lookup s3 ?base = Inr (Directory [(?m, File X)])"
    using b r3(2) res3 by (simp add: lookup_def) (simp add: s3_def)
  moreover have "lookup s3 ?P = Inr (File X)"
    using P r3(2) res3 by (simp add: lookup_def walk_append) (simp add: s3_def)
  ultimately show ?thesis by blast
qed

text \<open>When the sentinel is a file, it is still that file wherever the reset stops.\<close>

lemma clear_sentinel_any:
  assumes l: "lookup s (vendPath v ''modules.txt'') = Inr (File X)"
  shows "\<exists>v' s'. (clear v s = Return v' s' \<or> (\<exists>m. clear v s = Fatal m s')) \<and>
           lookup s' (vendPath v ''modules.txt'') = Inr (File X)"
proof (cases "basePath v \<noteq> [] \<and> resolve s (basePath v) \<noteq> []")
  case True
  then show ?thesis using clear_with_sentinel[OF l] by blast
next
  case False
  let ?P = "vendPath v ''modules.txt''"
  let ?v1 = "v\<lparr>modFileContent := X\<rparr>"
  have ex: "exists v ?P s" using l by (simp add: exists_def os_Stat_def)
  have cm: "copyModFile v s = Return ?v1 s" using l by (simp add: copyModFile_def ReadFile_def)
  show ?thesis
  proof (cases "basePath v = []")
    case True
    define s1 where "s1 = s\<lparr>trace := trace s @ [SysRemoveAll []]\<rparr>"
    define s2 where "s2 = s1\<lparr>trace := trace s1 @ [SysMkdirAll []]\<rparr>"
    have "removeAll ?v1 [] s = Return () s1"
      using True by (simp add: removeAll_def os_RemoveAll_def attempt_def s1_def)
    moreover have "os_MkdirAll [] s1 = Err ENOENT s2"
      by (simp add: os_MkdirAll_def attempt_def s2_def)
    ultimately have "clear v s = Fatal ''Error creating vendor directory'' s2"
      using ex cm True by (simp add: clear_def vendPath_def)
    moreover have "lookup s2 ?P = lookup s ?P"
      by (rule lookup_cwd_root) (simp_all add: s2_def s1_def)
    ultimately show ?thesis using l by auto
  next
    case ne: False
    then have B: "resolve s (basePath v) = []" using False by simp
    define s1 where "s1 = s\<lparr>trace := trace s @ [SysRemoveAll (basePath v)]\<rparr>"
    have "removeAll ?v1 (basePath v) s = Fatal ''Error removing path'' s1"
      using ne B by (simp add: removeAll_def os_RemoveAll_def attempt_def s1_def)
    then have "clear v s = Fatal ''Error removing path'' s1"
      using ex cm by (simp add: clear_def vendPath_def)
    moreover have "lookup s1 ?P = lookup s ?P"
      by (rule lookup_cwd_root) (simp_all add: s1_def)
    ultimately show ?thesis using l by auto
  qed
qed

text \<open>When there is no sentinel, no stage of the reset makes one.\<close>

lemma clear_without_sentinel:
  assumes l: "lookup s (vendPath v ''modules.txt'') = Inl e"
    and o: "clear v s = Return v' s' \<or> clear v s = Fatal m s'"
  shows "\<exists>e'. lookup s' (vendPath v ''modules.txt'') = Inl e'"
proof -
  let ?m = "''modules.txt''"
  let ?P = "vendPath v ?m"
  let ?base = "basePath v"
  let ?B = "resolve s ?base"
  have P: "?P \<noteq> []" "resolve s ?P = ?B @ [?m]" using sentinel_path[of v s] by simp_all
  have same: "\<exists>e'. lookup t ?P = Inl e'" if "cwd t = cwd s" "root t = root s" for t
    using lookup_cwd_root[OF that, of ?P] l by simp
  have fresh: "\<exists>e'. lookup t ?P = Inl e'"
    if "cwd t = cwd s" "walk (root t) ?B = Inr (Directory [])" for t
  proof -
    have "resolve t ?P = resolve s ?P" using that(1) by (rule resolve_cwd)
    then have "resolve t ?P = ?B @ [?m]" using P(2) by simp
    then show ?thesis using that(2) P(1) by (simp add: lookup_def walk_append)
  qed
  show ?thesis
  proof (cases "e = ENOENT")
    case False
    then have "exists v ?P s" using l by (simp add: exists_def os_Stat_def)
    moreover have "copyModFile v s = Fatal ''Error reading modules.txt'' s"
      using l by (simp add: copyModFile_def ReadFile_def)
    ultimately have "clear v s = Fatal ''Error reading modules.txt'' s"
      by (simp add: clear_def vendPath_def)
    then show ?thesis using o l by auto
  next
    case True
    then have ex: "\<not> exists v ?P s" using l by (simp add: exists_def os_Stat_def)
    text \<open>after a removal that went through, \<open>MkdirAll\<close> leaves an empty root\<close>
    have rebuilt: "\<exists>e'. lookup s' ?P = Inl e'"
      if s1: "removeAll v ?base s = Return () s1" "cwd s1 = cwd s" "trace s1 = trace s @ [SysRemoveAll ?base]"
        and mis: "walk (root s1) ?B = Inl ENOENT" and ne: "?base \<noteq> []" for s1
    proof -
      obtain r2 where r2: "mkdir_all ?B (Some (root s1)) = Inr r2" "walk r2 ?B = Inr (Directory [])"
        using mkdir_all_missing[OF mis] by blast
      define s2 where "s2 = s1\<lparr>root := r2, trace := trace s1 @ [SysMkdirAll ?base]\<rparr>"
      have "resolve s1 ?base = ?B" using s1(2) by (rule resolve_cwd)
      then have "os_MkdirAll ?base s1 = Ok s2"
        using ne r2 by (simp add: os_MkdirAll_def attempt_def s2_def)
      then have "clear v s = Return v s2"
        using ex s1(1) by (simp add: clear_def vendPath_def)
      then have "s' = s2" using o by simp
      moreover have "cwd s2 = cwd s" "walk (root s2) ?B = Inr (Directory [])"
        using s1(2) r2(2) by (simp_all add: s2_def)
      ultimately show ?thesis using fresh by blast
    qed
    show ?thesis
    proof (cases "?base = []")
      case True
      define s1 where "s1 = s\<lparr>trace := trace s @ [SysRemoveAll []]\<rparr>"
      define s2 where "s2 = s1\<lparr>trace := trace s1 @ [SysMkdirAll []]\<rparr>"
      have "removeAll v [] s = Return () s1"
        using True by (simp add: removeAll_def os_RemoveAll_def attempt_def s1_def)
      moreover have "os_MkdirAll [] s1 = Err ENOENT s2"
        by (simp add: os_MkdirAll_def attempt_def s2_def)
      ultimately have "clear v s = Fatal ''Error creating vendor directory'' s2"
        using ex True by (simp add: clear_def vendPath_def)
      then have "s' = s2" using o by simp
      then show ?thesis using same[of s2] by (simp add: s2_def s1_def)
    next
      case ne: False
      show ?thesis
      proof (cases "update_at ?B (\<lambda>n. Inr None) (root s)")
        case (Inr r1)
        define s1 where "s1 = s\<lparr>root := r1, trace := trace s @ [SysRemoveAll ?base]\<rparr>"
        have "removeAll v ?base s = Return () s1"
          using ne Inr by (simp add: removeAll_def os_RemoveAll_def attempt_def s1_def)
        moreover have "walk (root s1) ?B = Inl ENOENT"
          using unlink_missing[OF Inr] by (simp add: s1_def)
        ultimately show ?thesis using ne by (intro rebuilt[of s1]) (simp_all add: s1_def)
      next
        case (Inl e1)
        define s1 where "s1 = s\<lparr>trace := trace s @ [SysRemoveAll ?base]\<rparr>"
        show ?thesis
        proof (cases "e1 = ENOENT")
          case True
          then have "removeAll v ?base s = Return () s1"
            using ne Inl by (simp add: removeAll_def os_RemoveAll_def attempt_def s1_def)
          moreover have "walk (root s1) ?B = Inl ENOENT"
            using unlink_enoent Inl True by (simp add: s1_def)
          ultimately show ?thesis using ne by (intro rebuilt[of s1]) (simp_all add: s1_def)
        next
          case False
          then have "removeAll v ?base s = Fatal ''Error removing path'' s1"
            using ne Inl by (simp add: removeAll_def os_RemoveAll_def attempt_def s1_def)
          then have "clear v s = Fatal ''Error removing path'' s1"
            using ex by (simp add: clear_def vendPath_def)
          then have "s' = s1" using o by simp
          then show ?thesis using same[of s1] by (simp add: s1_def)
        qed
      qed
    qed
  qed
qed

text \<open>
  C2. If \<open>modules.txt\<close> is a file with bytes \<open>X\<close> at the vendor root, then wherever
  \<open>clear\<close> stops it is that file with those bytes; when the vendor root is a proper
  directory path, \<open>clear\<close> returns and has left a vendor root that holds
  \<open>modules.txt\<close> with \<open>X\<close> and nothing else. If \<open>modules.txt\<close> cannot be found
  before, it cannot be found after, however \<open>clear\<close> ends.
\<close>

theorem clear_preserves_sentinel:
  "(lookup s (vendPath v ''modules.txt'') = Inr (File X) \<longrightarrow>
      (\<exists>v' s'. (clear v s = Return v' s' \<or> (\<exists>m. clear v s = Fatal m s')) \<and>
         lookup s' (vendPath v ''modules.txt'') = Inr (File X))) \<and>
   (lookup s (vendPath v ''modules.txt'') = Inr (File X) \<and> basePath v \<noteq> [] \<and>
      resolve s (basePath v) \<noteq> [] \<longrightarrow>
      (\<exists>v' s'. clear v s = Return v' s' \<and>
         lookup s' (vendPath v ''modules.txt'') = Inr (File X) \<and>
         lookup s' (basePath v) = Inr (Directory [(''modules.txt'', File X)]))) \<and>
   (lookup s (vendPath v ''modules.txt'') = Inl e \<and>
      (clear v s = Return v1 s1 \<or> clear v s = Fatal m1 s1) \<longrightarrow>
      (\<exists>e'. lookup s1 (vendPath v ''modules.txt'') = Inl e'))"
  using clear_sentinel_any[of s v X] clear_with_sentinel[of s v X]
    clear_without_sentinel[of s v e v1 s1 m1]
  by blast

theorem clear_preserves_sentinel_witness:
  "lookup world2 (vendPath vendor2 ''modules.txt'') = Inr (File ''# example.com/a v1.0.0'') \<and>
   basePath vendor2 \<noteq> [] \<and> resolve world2 (basePath vendor2) \<noteq> [] \<and>
   (case clear vendor2 world2 of
      Return v' s' \<Rightarrow> lookup s' (basePath vendor2)
    | Fatal m s' \<Rightarrow> Inl EBUSY
    | Diverge \<Rightarrow> Inl EBUSY) =
     Inr (Directory [(''modules.txt'', File ''# example.com/a v1.0.0'')])"
proof -
  have l: "lookup world2 (vendPath vendor2 ''modules.txt'') = Inr (File ''# example.com/a v1.0.0'')"
    by code_simp
  have b: "basePath vendor2 \<noteq> []" "resolve world2 (basePath vendor2) \<noteq> []"
    by code_simp+
  obtain v' s' where "clear vendor2 world2 = Return v' s'"
    "lookup s' (basePath vendor2) = Inr (Directory [(''modules.txt'', File ''# example.com/a v1.0.0'')])"
    using clear_preserves_sentinel[of world2 vendor2 "''# example.com/a v1.0.0''"] l b by blast
  then show ?thesis using l b by simp
qed

section \<open>The staleness check\<close>

text \<open>
  C1, as the code has it. With the check enabled and the manifest found: a destination
  root whose modification time is after the manifest's makes the run return at once,
  with the world as it was; a root that is older or of the same time, and a root that
  does not exist, make the run go on to the reset, the copies and the replacements.
\<close>

theorem staleness_check:
  assumes "\<not> HasSuffix (basePath v) ''/vendor''" and "Replace (gomod v) = []"
    and "os_Stat s (if Getenv s ''GOMOD'' \<noteq> [] then Getenv s ''GOMOD'' else ''go.mod'') = Inr g"
  shows
    "(os_Stat s (basePath v) = Inr b \<and> ModTime g < ModTime b \<longrightarrow>
        CopyDependencies n v s = Return () s) \<and>
     (os_Stat s (basePath v) = Inr b \<and> ModTime b \<le> ModTime g \<longrightarrow>
        CopyDependencies n v s = vendor n v s) \<and>
     (os_Stat s (basePath v) = Inl ENOENT \<longrightarrow> CopyDependencies n v s = vendor n v s)"
  using assms by (auto simp: CopyDependencies_def Let_def)

theorem staleness_check_witness:
  "\<not> HasSuffix (basePath vendor1) ''/vendor'' \<and> Replace (gomod vendor1) = [] \<and>
   os_Stat world1n ''go.mod'' = Inr \<lparr>IsDir = False, IsSymlink = False, ModTime = 5\<rparr> \<and>
   os_Stat world1n (basePath vendor1) = Inr \<lparr>IsDir = True, IsSymlink = False, ModTime = 9\<rparr> \<and>
   CopyDependencies 3 vendor1 world1n = Return () world1n"
proof -
  have a: "\<not> HasSuffix (basePath vendor1) ''/vendor''" "Replace (gomod vendor1) = []"
    by code_simp+
  have e: "Getenv world1n ''GOMOD'' = []" by (simp add: world1n_def)
  have g: "os_Stat world1n ''go.mod'' = Inr \<lparr>IsDir = False, IsSymlink = False, ModTime = 5\<rparr>"
    by code_simp
  have b: "os_Stat world1n (basePath vendor1) = Inr \<lparr>IsDir = True, IsSymlink = False, ModTime = 9\<rparr>"
    by code_simp
  show ?thesis
    using staleness_check[of vendor1 world1n "\<lparr>IsDir = False, IsSymlink = False, ModTime = 5\<rparr>"
        "\<lparr>IsDir = True, IsSymlink = False, ModTime = 9\<rparr>" 3] a e g b
    by simp
qed

text \<open>
  The claim as written has the run do nothing also when the two times are equal.
  \<open>CopyDependencies\<close> tests \<open>statBasePath.ModTime().After(statGoMod.ModTime())\<close>:
  with both times 5 the run resets the destination.
\<close>

theorem staleness_equal_times_runs:
  "\<not> HasSuffix (basePath vendor1) ''/vendor'' \<and> Replace (gomod vendor1) = [] \<and>
   os_Stat world1 ''go.mod'' = Inr \<lparr>IsDir = False, IsSymlink = False, ModTime = 5\<rparr> \<and>
   os_Stat world1 (basePath vendor1) = Inr \<lparr>IsDir = True, IsSymlink = False, ModTime = 5\<rparr> \<and>
   (case CopyDependencies 3 vendor1 world1 of
      Return u s \<Rightarrow> (trace s, lookup s ''/w/out'')
    | Fatal m s \<Rightarrow> ([], Inl EBUSY)
    | Diverge \<Rightarrow> ([], Inl EBUSY)) =
     ([SysRemoveAll ''/w/out'', SysMkdirAll ''/w/out''], Inr (Directory []))"
  by code_simp

section \<open>The filter and regular files\<close>




lemma write_result:
  "update_at xs (write_entry b) n = Inr n' \<Longrightarrow> walk n' xs = Inr (File b)"
proof (induction xs "write_entry b" n arbitrary: n' rule: update_at.induct)
  case (1 n)
  then show ?case by simp
next
  case (2 x es)
  show ?case
  proof (cases "map_of es x")
    case None
    then show ?thesis using 2 by auto
  next
    case (Some c)
    then show ?thesis using 2 by (cases c) auto
  qed
next
  case (3 x y ys es)
  then show ?case by (auto split: option.splits sum.splits)
next
  case (4 x xs b)
  then show ?case by simp
next
  case (5 x xs t)
  then show ?case by simp
qed

lemma rewrite_file:
  "xs \<noteq> [] \<Longrightarrow> walk n xs = Inr (File old) \<Longrightarrow> \<exists>n'. update_at xs (write_entry b) n = Inr n'"
proof (induction xs "write_entry b" n rule: update_at.induct)
  case (1 n)
  then show ?case by simp
next
  case (2 x es)
  then show ?case by (auto split: option.splits)
next
  case (3 x y ys es)
  then show ?case by (auto split: option.splits sum.splits)
next
  case (4 x xs b)
  then show ?case by simp
next
  case (5 x xs t)
  then show ?case by simp
qed



lemma MkdirAll_Ok:
  "os_MkdirAll p s = Ok s1 \<Longrightarrow>
   p \<noteq> [] \<and> mkdir_all (resolve s p) (Some (root s)) = Inr (root s1) \<and> cwd s1 = cwd s"
  by (auto simp: os_MkdirAll_def attempt_def split: if_splits sum.splits)

lemma Create_Ok:
  "os_Create p s = Ok s1 \<Longrightarrow>
   p \<noteq> [] \<and> update_at (resolve s p) (write_entry []) (root s) = Inr (root s1) \<and> cwd s1 = cwd s"
  by (auto simp: os_Create_def attempt_def split: if_splits sum.splits)

lemma copyFile_steps:
  assumes "copyFile v src dest s = Return c s'"
  obtains s1 s2 b where "os_MkdirAll (Dir dest) s = Ok s1" and "os_Create dest s1 = Ok s2"
    and "lookup s2 src = Inr (File b)" and "c" and "s' = write_open dest b s2"
proof -
  obtain s1 where s1: "os_MkdirAll (Dir dest) s = Ok s1"
    using assms by (cases "os_MkdirAll (Dir dest) s") (auto simp: copyFile_def)
  obtain s2 where s2: "os_Create dest s1 = Ok s2"
    using assms s1 by (cases "os_Create dest s1") (auto simp: copyFile_def)
  obtain b where b: "lookup s2 src = Inr (File b)"
    using assms s1 s2
    by (cases "lookup s2 src") (auto simp: copyFile_def split: node.splits)
  have "c" "s' = write_open dest b s2"
    using assms s1 s2 b by (auto simp: copyFile_def)
  then show ?thesis using that s1 s2 b by blast
qed

lemma write_open_file:
  assumes "os_Create dest s1 = Ok s2"
  shows "lookup (write_open dest b s2) dest = Inr (File b)"
proof -
  have d: "dest \<noteq> []" "update_at (resolve s1 dest) (write_entry []) (root s1) = Inr (root s2)"
      "cwd s2 = cwd s1"
    using Create_Ok[OF assms] by simp_all
  have x: "resolve s2 dest = resolve s1 dest" using d(3) by (rule resolve_cwd)
  have w: "walk (root s2) (resolve s2 dest) = Inr (File [])"
    using write_result[OF d(2)] x by simp
  have ne: "resolve s2 dest \<noteq> []" using d(2) x by (cases "resolve s1 dest") auto
  obtain n' where n': "update_at (resolve s2 dest) (write_entry b) (root s2) = Inr n'"
    using rewrite_file[OF ne w] by blast
  have "write_open dest b s2 = s2\<lparr>root := n'\<rparr>" using n' by (simp add: write_open_def)
  moreover have "walk n' (resolve s2 dest) = Inr (File b)" using n' by (rule write_result)
  moreover have "resolve (s2\<lparr>root := n'\<rparr>) dest = resolve s2 dest"
    by (rule resolve_cwd) simp
  ultimately show ?thesis using d(1) by (simp add: lookup_def)
qed

lemma copyFile_result:
  assumes "copyFile v src dest s = Return c s'"
  shows "c \<and> (\<exists>b. lookup s' dest = Inr (File b))"
  using assms by (elim copyFile_steps) (auto simp: write_open_file)





section \<open>Symbolic links\<close>

lemma no_new_links_refl: "no_new_links n n"
  by (simp add: no_new_links_def)

lemma no_new_links_trans: "no_new_links a b \<Longrightarrow> no_new_links b c \<Longrightarrow> no_new_links a c"
  by (simp add: no_new_links_def)

text \<open>Replacing the entry \<open>x\<close> of a directory by a node that brings no new link.\<close>

lemma links_update_entry:
  assumes "\<And>c. map_of es x = Some c \<Longrightarrow> no_new_links c c'"
    and "map_of es x = None \<Longrightarrow> \<forall>ys t. walk c' ys \<noteq> Inr (Symlink t)"
  shows "no_new_links (Directory es) (Directory (AList.update x c' es))"
  unfolding no_new_links_def
proof (intro allI impI)
  fix ys t
  assume w: "walk (Directory (AList.update x c' es)) ys = Inr (Symlink t)"
  then obtain z zs where ys: "ys = z # zs" by (cases ys) auto
  show "walk (Directory es) ys = Inr (Symlink t)"
  proof (cases "z = x")
    case True
    then have c': "walk c' zs = Inr (Symlink t)" using w ys by simp
    then obtain c where c: "map_of es x = Some c" using assms(2) by (cases "map_of es x") auto
    then have "no_new_links c c'" by (rule assms(1))
    then show ?thesis using c c' True ys by (simp add: no_new_links_def)
  next
    case False
    then show ?thesis using w ys by (simp add: map_of_update_other)
  qed
qed

lemma links_delete_entry: "no_new_links (Directory es) (Directory (AList.delete x es))"
  unfolding no_new_links_def
proof (intro allI impI)
  fix ys t
  assume w: "walk (Directory (AList.delete x es)) ys = Inr (Symlink t)"
  then obtain z zs where ys: "ys = z # zs" by (cases ys) auto
  then have "z \<noteq> x" using w by (cases "z = x") auto
  then show "walk (Directory es) ys = Inr (Symlink t)"
    using w ys by (simp add: map_of_delete_other)
qed

lemma walk_file_not_link: "walk (File b) ys \<noteq> Inr (Symlink t)"
  by (cases ys) simp_all

lemma links_file: "no_new_links c (File b)"
  by (simp add: no_new_links_def walk_file_not_link)

lemma links_update_at:
  "makes_no_link f \<Longrightarrow> update_at xs f n = Inr n' \<Longrightarrow> no_new_links n n'"
proof (induction xs f n arbitrary: n' rule: update_at.induct)
  case (1 f n)
  then show ?case by simp
next
  case (2 x f es)
  show ?case
  proof (cases "f (map_of es x)")
    case (Inl e)
    then show ?thesis using 2 by simp
  next
    case (Inr r)
    show ?thesis
    proof (cases r)
      case None
      then show ?thesis using 2 Inr links_delete_entry by auto
    next
      case (Some c)
      then obtain b where "c = File b" using 2(1) Inr by (auto simp: makes_no_link_def)
      then have "n' = Directory (AList.update x (File b) es)" using 2 Inr Some by simp
      moreover have "no_new_links (Directory es) (Directory (AList.update x (File b) es))"
        by (rule links_update_entry) (simp_all add: links_file walk_file_not_link)
      ultimately show ?thesis by simp
    qed
  qed
next
  case (3 x y ys f es)
  then obtain c c' where c: "map_of es x = Some c" "update_at (y # ys) f c = Inr c'"
      "n' = Directory (AList.update x c' es)"
    by (auto split: option.splits sum.splits)
  have "no_new_links c c'" using 3(1)[OF c(1) 3(2) c(2)] .
  then have "no_new_links (Directory es) (Directory (AList.update x c' es))"
    using c(1) by (intro links_update_entry) auto
  then show ?case using c(3) by simp
next
  case (4 x xs f b)
  then show ?case by simp
next
  case (5 x xs f t)
  then show ?case by simp
qed

lemma links_mkdir_fresh:
  "mkdir_all xs None = Inr n' \<Longrightarrow> walk n' ys \<noteq> Inr (Symlink t)"
proof (induction xs arbitrary: n' ys)
  case Nil
  then show ?case by (cases ys) auto
next
  case (Cons x xs)
  then obtain c where c: "mkdir_all xs None = Inr c" "n' = Directory [(x, c)]"
    by (auto split: sum.splits)
  show ?case
  proof (cases ys)
    case Nil
    then show ?thesis using c by simp
  next
    case (Cons z zs)
    then show ?thesis using c Cons.IH[OF c(1), of zs] by auto
  qed
qed

lemma links_mkdir_all:
  "mkdir_all xs (Some n) = Inr n' \<Longrightarrow> no_new_links n n'"
proof (induction xs arbitrary: n n')
  case Nil
  then show ?case by (cases n) (auto simp: no_new_links_refl)
next
  case (Cons x xs)
  then obtain es where n: "n = Directory es" by (cases n) auto
  then obtain c' where c': "mkdir_all xs (map_of es x) = Inr c'"
      "n' = Directory (AList.update x c' es)"
    using Cons.prems by (auto split: sum.splits)
  have "no_new_links (Directory es) (Directory (AList.update x c' es))"
  proof (rule links_update_entry)
    fix c assume "map_of es x = Some c"
    then show "no_new_links c c'" using Cons.IH c'(1) by simp
  next
    assume "map_of es x = None"
    then show "\<forall>ys t. walk c' ys \<noteq> Inr (Symlink t)"
      using links_mkdir_fresh c'(1) by auto
  qed
  then show ?case using n c'(2) by simp
qed

lemma makes_no_link_remove: "makes_no_link remove_entry"
  unfolding makes_no_link_def
proof (intro allI impI)
  fix old c assume "remove_entry old = Inr (Some c)"
  then show "\<exists>b. c = File b" by (cases old rule: remove_entry.cases) auto
qed

lemma makes_no_link_unlink: "makes_no_link (\<lambda>n. Inr None)"
  by (simp add: makes_no_link_def)

lemma makes_no_link_write: "makes_no_link (write_entry b)"
  unfolding makes_no_link_def
proof (intro allI impI)
  fix old c assume "write_entry b old = Inr (Some c)"
  then show "\<exists>b. c = File b" by (cases "(b, old)" rule: write_entry.cases) auto
qed

lemma links_attempt:
  assumes "attempt c r s = Ok s1 \<or> attempt c r s = Err e s1"
    and "\<And>n. r = Inr n \<Longrightarrow> no_new_links (root s) n"
  shows "no_new_links (root s) (root s1)"
  using assms by (cases r) (auto simp: attempt_def no_new_links_refl)

lemma links_MkdirAll:
  "os_MkdirAll p s = Ok s1 \<or> os_MkdirAll p s = Err e s1 \<Longrightarrow> no_new_links (root s) (root s1)"
  unfolding os_MkdirAll_def
  by (erule links_attempt) (auto split: if_splits intro: links_mkdir_all)

lemma links_Remove:
  "os_Remove p s = Ok s1 \<or> os_Remove p s = Err e s1 \<Longrightarrow> no_new_links (root s) (root s1)"
  unfolding os_Remove_def
  by (erule links_attempt) (auto split: if_splits intro: links_update_at makes_no_link_remove)

lemma links_RemoveAll:
  "os_RemoveAll p s = Ok s1 \<or> os_RemoveAll p s = Err e s1 \<Longrightarrow> no_new_links (root s) (root s1)"
  unfolding os_RemoveAll_def
  by (erule links_attempt)
    (auto split: if_splits sum.splits intro: links_update_at makes_no_link_unlink no_new_links_refl)

lemma links_Create:
  "os_Create p s = Ok s1 \<or> os_Create p s = Err e s1 \<Longrightarrow> no_new_links (root s) (root s1)"
  unfolding os_Create_def
  by (erule links_attempt) (auto split: if_splits intro: links_update_at makes_no_link_write)

lemma links_WriteFile:
  "WriteFile p b s = Ok s1 \<or> WriteFile p b s = Err e s1 \<Longrightarrow> no_new_links (root s) (root s1)"
  unfolding WriteFile_def
  by (erule links_attempt) (auto split: if_splits intro: links_update_at makes_no_link_write)

lemma links_write_open: "no_new_links (root s) (root (write_open p b s))"
  by (auto simp: write_open_def no_new_links_refl split: sum.splits
      intro: links_update_at makes_no_link_write)

lemma links_copyFile:
  assumes "copyFile v src dest s = Return c s' \<or> copyFile v src dest s = Fatal m s'"
  shows "no_new_links (root s) (root s')"
proof (cases "os_MkdirAll (Dir dest) s")
  case (Err e s1)
  then have "s' = s1" using assms by (simp add: copyFile_def)
  then show ?thesis using Err links_MkdirAll by blast
next
  case (Ok s1)
  then have 1: "no_new_links (root s) (root s1)" using links_MkdirAll by blast
  show ?thesis
  proof (cases "os_Create dest s1")
    case (Err e s2)
    then have "s' = s2" using assms Ok by (simp add: copyFile_def)
    then show ?thesis using Err links_Create 1 no_new_links_trans by blast
  next
    case c: (Ok s2)
    then have 2: "no_new_links (root s) (root s2)"
      using links_Create 1 no_new_links_trans by blast
    have "s' = s2 \<or> (\<exists>b. s' = write_open dest b s2)"
      using assms Ok c by (auto simp: copyFile_def split: sum.splits node.splits)
    then show ?thesis using 2 links_write_open no_new_links_trans by blast
  qed
qed

lemma links_copyContents:
  assumes cp: "\<And>a b s c s' m. cp a b s = Return c s' \<or> cp a b s = Fatal m s'
                 \<Longrightarrow> no_new_links (root s) (root s')"
  shows "copyContents cp src dest contents copied s = Return c s' \<or>
         copyContents cp src dest contents copied s = Fatal m s'
         \<Longrightarrow> no_new_links (root s) (root s')"
proof (induction contents arbitrary: copied s)
  case Nil
  then show ?case by (auto simp: no_new_links_refl)
next
  case (Cons x xs)
  show ?case
  proof (cases "cp (Join src x) (Join dest x) s")
    case (Return b s1)
    then have "no_new_links (root s) (root s1)" using cp by blast
    moreover have "no_new_links (root s1) (root s')"
      using Cons.prems Return by (intro Cons.IH[of "if b then True else copied" s1]) simp
    ultimately show ?thesis by (rule no_new_links_trans)
  next
    case (Fatal m1 s1)
    then have "s' = s1" using Cons.prems by simp
    then show ?thesis using Fatal cp by blast
  next
    case Diverge
    then show ?thesis using Cons.prems by simp
  qed
qed

lemma links_copyDirectory:
  assumes cp: "\<And>a b s c s' m. cp a b s = Return c s' \<or> cp a b s = Fatal m s'
                 \<Longrightarrow> no_new_links (root s) (root s')"
    and r: "copyDirectory cp v src dest s = Return c s' \<or> copyDirectory cp v src dest s = Fatal m s'"
  shows "no_new_links (root s) (root s')"
proof (cases "os_MkdirAll dest s")
  case (Err e s1)
  then have "s' = s1" using r by (simp add: copyDirectory_def)
  then show ?thesis using Err links_MkdirAll by blast
next
  case (Ok s1)
  then have 1: "no_new_links (root s) (root s1)" using links_MkdirAll by blast
  show ?thesis
  proof (cases "ReadDir s1 src")
    case (Inl e)
    then have "s' = s1" using r Ok by (simp add: copyDirectory_def)
    then show ?thesis using 1 by simp
  next
    case (Inr contents)
    have cc: "no_new_links (root s1) (root t)"
      if h: "copyContents cp src dest contents False s1 = Return b t \<or>
             copyContents cp src dest contents False s1 = Fatal m' t" for b t m'
      by (rule links_copyContents[where cp = cp, OF _ h]) (erule cp)
    show ?thesis
    proof (cases "copyContents cp src dest contents False s1")
      case (Return b s2)
      then have 2: "no_new_links (root s) (root s2)"
        using cc[of b s2] 1 no_new_links_trans by blast
      show ?thesis
      proof (cases "\<not> b \<and> filter' v \<noteq> None")
        case False
        then have "s' = s2" using r Ok Inr Return by (auto simp: copyDirectory_def)
        then show ?thesis using 2 by simp
      next
        case True
        then obtain e where "remove v dest s2 = Ok s' \<or> remove v dest s2 = Err e s'"
          using r Ok Inr Return by (cases "remove v dest s2") (auto simp: copyDirectory_def)
        then have "no_new_links (root s2) (root s')"
          using links_Remove by (simp add: remove_def)
        then show ?thesis using 2 no_new_links_trans by blast
      qed
    next
      case (Fatal m1 s2)
      then have "s' = s2" using r Ok Inr by (simp add: copyDirectory_def)
      then show ?thesis
        using cc[of _ s2 m1] Fatal 1 no_new_links_trans by blast
    next
      case Diverge
      then show ?thesis using r Ok Inr by (simp add: copyDirectory_def)
    qed
  qed
qed

lemma links_copy:
  "copy n v src dest s = Return c s' \<or> copy n v src dest s = Fatal m s'
   \<Longrightarrow> no_new_links (root s) (root s')"
proof (induction n arbitrary: src dest s c s' m)
  case 0
  then show ?case by simp
next
  case (Suc n)
  show ?case
  proof (cases "os_Lstat s src")
    case (Inl e)
    then show ?thesis using Suc.prems by (auto simp: no_new_links_refl)
  next
    case (Inr i)
    consider "IsSymlink i" | "\<not> IsSymlink i" "IsDir i"
      | "\<not> IsSymlink i" "\<not> IsDir i" "filter' v = None \<or> MatchString (the (filter' v)) dest"
      | "\<not> IsSymlink i" "\<not> IsDir i" "\<not> (filter' v = None \<or> MatchString (the (filter' v)) dest)"
      by blast
    then show ?thesis
    proof cases
      case 1
      then show ?thesis using Suc.prems Inr by (auto simp: no_new_links_refl)
    next
      case 2
      then have "copyDirectory (copy n v) v src dest s = Return c s' \<or>
                 copyDirectory (copy n v) v src dest s = Fatal m s'"
        using Suc.prems Inr by simp
      then show ?thesis
        by (rule links_copyDirectory[where cp = "copy n v", rotated]) (erule Suc.IH)
    next
      case 3
      then have "copyFile v src dest s = Return c s' \<or> copyFile v src dest s = Fatal m s'"
        using Suc.prems Inr by auto
      then show ?thesis by (rule links_copyFile)
    next
      case 4
      then show ?thesis using Suc.prems Inr by (auto simp: no_new_links_refl)
    qed
  qed
qed

text \<open>
  C8. A source that \<open>Lstat\<close> reports as a symbolic link makes \<open>copy\<close> return false
  with the world untouched. And however a \<open>copy\<close> ends, every link of the tree it
  leaves was that same link, at the same place, in the tree it started from: no copy
  makes a link.
\<close>

theorem copy_skips_symlinks:
  "(os_Lstat s src = Inr i \<and> IsSymlink i \<longrightarrow> copy (Suc n) v src dest s = Return False s) \<and>
   (copy k v src dest s = Return c s' \<or> copy k v src dest s = Fatal m s' \<longrightarrow>
      (\<forall>ys t. walk (root s') ys = Inr (Symlink t) \<longrightarrow> walk (root s) ys = Inr (Symlink t)))"
  using links_copy[of k v src dest s c s' m] by (auto simp: no_new_links_def)

theorem copy_skips_symlinks_witness:
  "os_Lstat world8 ''/c/m/latest'' = Inr \<lparr>IsDir = False, IsSymlink = True, ModTime = 0\<rparr> \<and>
   copy 1 vendor8 ''/c/m/latest'' ''/w/v/m/latest'' world8 = Return False world8"
proof -
  let ?i = "\<lparr>IsDir = False, IsSymlink = True, ModTime = 0\<rparr>"
  have l: "os_Lstat world8 ''/c/m/latest'' = Inr ?i" by code_simp
  have "IsSymlink ?i" by simp
  then have "copy (Suc 0) vendor8 ''/c/m/latest'' ''/w/v/m/latest'' world8 = Return False world8"
    using copy_skips_symlinks[of world8 "''/c/m/latest''" ?i 0 vendor8 "''/w/v/m/latest''"] l
    by blast
  then show ?thesis using l by (simp only: One_nat_def simp_thms)
qed

section \<open>Copying a directory\<close>

lemma copyContents_copyEach:
  "copyContents cp src dest xs c0 s =
     (case copyEach cp src dest xs s of
        Diverge \<Rightarrow> Diverge
      | Fatal m s' \<Rightarrow> Fatal m s'
      | Return rs s' \<Rightarrow> Return (c0 \<or> True \<in> set rs) s')"
proof (induction xs arbitrary: c0 s)
  case Nil
  show ?case by simp
next
  case (Cons x xs)
  show ?case
  proof (cases "cp (Join src x) (Join dest x) s")
    case (Return c s1)
    then show ?thesis
      by (cases "copyEach cp src dest xs s1") (auto simp: Cons.IH)
  next
    case (Fatal m s1)
    then show ?thesis by simp
  next
    case Diverge
    then show ?thesis by simp
  qed
qed

lemma copyDirectory_refines: "copyDirectory cp v src dest s = copyDirectory_spec cp v src dest s"
proof (cases "os_MkdirAll dest s")
  case (Err e s1)
  then show ?thesis by (simp add: copyDirectory_def copyDirectory_spec_def)
next
  case (Ok s1)
  show ?thesis
  proof (cases "ReadDir s1 src")
    case (Inl e)
    then show ?thesis using Ok by (simp add: copyDirectory_def copyDirectory_spec_def)
  next
    case (Inr entries)
    show ?thesis
      using Ok Inr
      by (cases "copyEach cp src dest entries s1")
        (auto simp: copyDirectory_def copyDirectory_spec_def copyContents_copyEach remove_def
           split: sysret.splits)
  qed
qed

lemma mkdir_all_dir: "mkdir_all xs old = Inr n' \<Longrightarrow> \<exists>es. walk n' xs = Inr (Directory es)"
proof (induction xs old arbitrary: n' rule: mkdir_all.induct)
  case 1
  then show ?case by auto
next
  case (2 es)
  then show ?case by auto
next
  case (3 b)
  then show ?case by simp
next
  case (4 t)
  then show ?case by simp
next
  case (5 x xs)
  then show ?case by (auto split: sum.splits)
next
  case (6 x xs es)
  then show ?case by (auto split: sum.splits)
next
  case (7 x xs b)
  then show ?case by simp
next
  case (8 x xs t)
  then show ?case by simp
qed

lemma MkdirAll_makes_dir:
  assumes "os_MkdirAll p s = Ok s1"
  shows "\<exists>es. lookup s1 p = Inr (Directory es)"
proof -
  have p: "p \<noteq> []" and m: "mkdir_all (resolve s p) (Some (root s)) = Inr (root s1)"
    and c: "cwd s1 = cwd s"
    using assms by (auto simp: os_MkdirAll_def attempt_def split: if_splits sum.splits)
  have "resolve s1 p = resolve s p" using c by (rule resolve_cwd)
  then show ?thesis using mkdir_all_dir[OF m] p by (simp add: lookup_def)
qed

lemma rmdir_empty:
  "xs \<noteq> [] \<Longrightarrow> walk n xs = Inr (Directory []) \<Longrightarrow>
   \<exists>n'. update_at xs remove_entry n = Inr n' \<and> walk n' xs = Inl ENOENT"
proof (induction xs remove_entry n rule: update_at.induct)
  case (1 n)
  then show ?case by simp
next
  case (2 x es)
  then show ?case by (auto split: option.splits)
next
  case (3 x y ys es)
  then show ?case by (auto split: option.splits sum.splits)
next
  case (4 x xs b)
  then show ?case by simp
next
  case (5 x xs t)
  then show ?case by simp
qed

lemma Remove_empty_dir:
  assumes "lookup s p = Inr (Directory [])" and "resolve s p \<noteq> []"
  shows "\<exists>s1. os_Remove p s = Ok s1 \<and> lookup s1 p = Inl ENOENT"
proof -
  have p: "p \<noteq> []" and w: "walk (root s) (resolve s p) = Inr (Directory [])"
    using assms(1) by (auto simp: lookup_def split: if_splits)
  obtain n' where n': "update_at (resolve s p) remove_entry (root s) = Inr n'"
      "walk n' (resolve s p) = Inl ENOENT"
    using rmdir_empty[OF assms(2) w] by blast
  let ?s1 = "s\<lparr>root := n', trace := trace s @ [SysRemove p]\<rparr>"
  have "os_Remove p s = Ok ?s1" using p n'(1) by (simp add: os_Remove_def attempt_def)
  moreover have "resolve ?s1 p = resolve s p" by (rule resolve_cwd) simp
  then have "lookup ?s1 p = Inl ENOENT" using p n'(2) by (simp add: lookup_def)
  ultimately show ?thesis by blast
qed

lemma Remove_nonempty_fails:
  assumes "lookup s p = Inr (Directory (e # es))"
  shows "\<exists>er. os_Remove p s = Err er (s\<lparr>trace := trace s @ [SysRemove p]\<rparr>)"
proof (cases "resolve s p = []")
  case True
  have "p \<noteq> []" using assms by (auto simp: lookup_def split: if_splits)
  then show ?thesis using True by (simp add: os_Remove_def attempt_def)
next
  case False
  then show ?thesis using os_Remove_nonempty_dir[OF assms] by blast
qed

lemma plain_names_Directory:
  "plain_names (Directory es) \<longleftrightarrow> (\<forall>p\<in>set es. plain (fst p) \<and> plain_names (snd p))"
  by (auto simp: list_all_iff)

declare plain_names.simps(2) [simp del]

lemma plain_names_entry:
  "plain_names (Directory es) \<Longrightarrow> map_of es x = Some c \<Longrightarrow> plain_names c"
proof -
  assume a: "plain_names (Directory es)" "map_of es x = Some c"
  then have "(x, c) \<in> set es" by (simp add: map_of_SomeD)
  then have "plain_names (snd (x, c))" using a(1) unfolding plain_names_Directory by blast
  then show ?thesis by simp
qed

lemma plain_names_walk: "plain_names n \<Longrightarrow> walk n xs = Inr c \<Longrightarrow> plain_names c"
proof (induction xs arbitrary: n)
  case Nil
  then show ?case by simp
next
  case (Cons x xs)
  then obtain es c1 where n: "n = Directory es" "map_of es x = Some c1" "walk c1 xs = Inr c"
    by (cases n) (auto split: option.splits)
  then have "plain_names c1" using Cons.prems(1) plain_names_entry by blast
  then show ?case using Cons.IH n(3) by blast
qed

lemma set_update_cases: "p \<in> set (AList.update k v al) \<Longrightarrow> p = (k, v) \<or> p \<in> set al"
  by (induction al) (auto split: if_splits)

lemma plain_names_update:
  "plain_names (Directory es) \<Longrightarrow> plain x \<Longrightarrow> plain_names c \<Longrightarrow>
   plain_names (Directory (AList.update x c es))"
  unfolding plain_names_Directory using set_update_cases by fastforce

lemma plain_names_fresh:
  "\<forall>x\<in>set xs. plain x \<Longrightarrow> mkdir_all xs None = Inr n' \<Longrightarrow> plain_names n'"
proof (induction xs arbitrary: n')
  case Nil
  then show ?case by (auto simp: plain_names_Directory)
next
  case (Cons x xs)
  then obtain c where c: "mkdir_all xs None = Inr c" "n' = Directory [(x, c)]"
    by (auto split: sum.splits)
  then have "plain_names c" using Cons by simp
  then show ?case using c(2) Cons.prems(1) by (simp add: plain_names_Directory)
qed

lemma plain_names_mkdir_all:
  "plain_names n \<Longrightarrow> \<forall>x\<in>set xs. plain x \<Longrightarrow> mkdir_all xs (Some n) = Inr n'
   \<Longrightarrow> plain_names n'"
proof (induction xs arbitrary: n n')
  case Nil
  then show ?case by (cases n) auto
next
  case (Cons x xs)
  then obtain es where n: "n = Directory es" by (cases n) auto
  then obtain c' where c': "mkdir_all xs (map_of es x) = Inr c'"
      "n' = Directory (AList.update x c' es)"
    using Cons.prems by (auto split: sum.splits)
  have "plain_names c'"
  proof (cases "map_of es x")
    case None
    then show ?thesis using c'(1) Cons.prems(2) plain_names_fresh[of xs c'] by simp
  next
    case (Some c)
    then have "plain_names c" using Cons.prems(1) n plain_names_entry by blast
    then show ?thesis using Cons.IH[of c c'] c'(1) Some Cons.prems(2) by simp
  qed
  then show ?case using c'(2) n Cons.prems(1,2) by (simp add: plain_names_update)
qed

lemma ReadDir_plain:
  assumes "plain_names (root s)" and "ReadDir s p = Inr names"
  shows "\<forall>x\<in>set names. plain x"
proof -
  obtain es where es: "lookup s p = Inr (Directory es)" "names = sort (remdups (map fst es))"
    using assms(2) by (auto simp: ReadDir_def split: sum.splits node.splits)
  then have "walk (root s) (resolve s p) = Inr (Directory es)"
    by (auto simp: lookup_def split: if_splits)
  then have "plain_names (Directory es)" using assms(1) plain_names_walk by blast
  then show ?thesis using es(2) by (auto simp: plain_names_Directory)
qed

text \<open>\<open>MkdirAll\<close> of a directory that is there changes nothing.\<close>

lemma mkdir_all_existing:
  "walk n xs = Inr (Directory es) \<Longrightarrow> mkdir_all xs (Some n) = Inr n"
proof (induction xs arbitrary: n)
  case Nil
  then show ?case by simp
next
  case (Cons x xs)
  then obtain es0 c where n: "n = Directory es0" "map_of es0 x = Some c"
      "walk c xs = Inr (Directory es)"
    by (cases n) (auto split: option.splits)
  then have "mkdir_all xs (Some c) = Inr c" using Cons.IH by blast
  then show ?case using n by (simp add: update_triv)
qed

text \<open>
  Making a directory \<open>y\<close> that is missing in an existing directory, and removing it
  again while it is empty, gives the tree back.
\<close>

lemma mkdir_rmdir:
  "walk n ps = Inr (Directory es) \<Longrightarrow> map_of es y = None \<Longrightarrow>
   \<exists>n1. mkdir_all (ps @ [y]) (Some n) = Inr n1 \<and> walk n1 (ps @ [y]) = Inr (Directory []) \<and>
        update_at (ps @ [y]) remove_entry n1 = Inr n"
proof (induction ps arbitrary: n)
  case Nil
  then have "y \<notin> fst ` set es" by (simp add: map_of_eq_None_iff)
  then have "AList.delete y (AList.update y (Directory []) es) = es"
    by (simp add: delete_update_same)
  then show ?case using Nil by simp
next
  case (Cons x ps)
  then obtain es0 c where n: "n = Directory es0" "map_of es0 x = Some c"
      "walk c ps = Inr (Directory es)"
    by (cases n) (auto split: option.splits)
  obtain c1 where c1: "mkdir_all (ps @ [y]) (Some c) = Inr c1"
      "walk c1 (ps @ [y]) = Inr (Directory [])" "update_at (ps @ [y]) remove_entry c1 = Inr c"
    using Cons.IH[OF n(3) Cons.prems(2)] by blast
  have "AList.update x c (AList.update x c1 es0) = es0"
    using n(2) by (simp add: update_triv)
  then show ?case using n c1 by (simp add: update_at_Cons)
qed

lemma Remove_Ok:
  "os_Remove p s = Ok s1 \<Longrightarrow>
   p \<noteq> [] \<and> update_at (resolve s p) remove_entry (root s) = Inr (root s1) \<and> cwd s1 = cwd s"
  by (auto simp: os_Remove_def attempt_def split: if_splits sum.splits)

lemma Join_nonempty: "b \<noteq> [] \<Longrightarrow> Join a b \<noteq> []"
  by (simp add: Join_def Clean_nonempty)

lemma resolve_Join_name: "plain x \<Longrightarrow> resolve s (Join d x) = resolve s d @ [x]"
  using resolve_Join_plain[of "[x]" s d] by simp

lemma copyContents_flag:
  "copyContents cp src dest xs True s = Return b s' \<Longrightarrow> b"
proof (induction xs arbitrary: s)
  case Nil
  then show ?case by simp
next
  case (Cons x xs)
  then show ?case
    by (cases "cp (Join src x) (Join dest x) s") (auto split: if_splits)
qed

text \<open>
  A copy is quiet when, given a destination that is missing in an existing directory,
  a result of false means the tree is as it was. If the child copies are quiet, the
  loop over the entries leaves an empty destination directory empty.
\<close>

lemma copyContents_quiet:
  assumes cp: "\<And>src dest s s' ps y es.
      dest \<noteq> [] \<Longrightarrow> resolve s dest = ps @ [y] \<Longrightarrow> walk (root s) ps = Inr (Directory es) \<Longrightarrow>
      map_of es y = None \<Longrightarrow> plain_names (root s) \<Longrightarrow> cp src dest s = Return False s' \<Longrightarrow>
      root s' = root s \<and> cwd s' = cwd s"
  shows "\<forall>x\<in>set xs. plain x \<Longrightarrow> walk (root t) (resolve t dest) = Inr (Directory []) \<Longrightarrow>
    plain_names (root t) \<Longrightarrow> copyContents cp src dest xs flag t = Return False t2 \<Longrightarrow>
    root t2 = root t \<and> cwd t2 = cwd t"
proof (induction xs arbitrary: flag t)
  case Nil
  then show ?case by simp
next
  case (Cons x xs)
  obtain c t1 where c: "cp (Join src x) (Join dest x) t = Return c t1"
    using Cons.prems(4) by (cases "cp (Join src x) (Join dest x) t") auto
  then have rest: "copyContents cp src dest xs (if c then True else flag) t1 = Return False t2"
    using Cons.prems(4) by simp
  have "\<not> c" using rest copyContents_flag[of cp src dest xs t1 False t2] by auto
  then have c': "cp (Join src x) (Join dest x) t = Return False t1"
    and rest': "copyContents cp src dest xs flag t1 = Return False t2"
    using c rest by simp_all
  have px: "plain x" using Cons.prems(1) by simp
  have "Join dest x \<noteq> []" using px by (intro Join_nonempty) (simp add: plain_def)
  moreover have "resolve t (Join dest x) = resolve t dest @ [x]" using px by (rule resolve_Join_name)
  moreover have "map_of ([]::(string \<times> node) list) x = None" by simp
  ultimately have 1: "root t1 = root t \<and> cwd t1 = cwd t"
    using cp[of "Join dest x" t "resolve t dest" x "[]" "Join src x" t1] Cons.prems(2,3) c'
    by blast
  then have "resolve t1 dest = resolve t dest" using resolve_cwd by blast
  then have "root t2 = root t1 \<and> cwd t2 = cwd t1"
    using Cons.IH[of t1 flag] Cons.prems(1,2,3) 1 rest' by simp
  then show ?case using 1 by simp
qed

lemma copy_quiet:
  assumes f: "filter' v \<noteq> None"
  shows "dest \<noteq> [] \<Longrightarrow> resolve s dest = ps @ [y] \<Longrightarrow> walk (root s) ps = Inr (Directory es) \<Longrightarrow>
    map_of es y = None \<Longrightarrow> plain_names (root s) \<Longrightarrow> copy n v src dest s = Return False s' \<Longrightarrow>
    root s' = root s \<and> cwd s' = cwd s"
proof (induction n arbitrary: src dest s s' ps y es)
  case 0
  then show ?case by simp
next
  case (Suc n)
  obtain i where i: "os_Lstat s src = Inr i"
    using Suc.prems(6) by (cases "os_Lstat s src") auto
  show ?case
  proof (cases "\<not> IsSymlink i \<and> IsDir i")
    case False
    then have "s' = s \<or> copyFile v src dest s = Return False s'"
      using Suc.prems(6) i by (auto split: if_splits)
    then show ?thesis using copyFile_result[of v src dest s False s'] by auto
  next
    case True
    then have cd: "copyDirectory (copy n v) v src dest s = Return False s'"
      using Suc.prems(6) i by simp
    obtain s1 where s1: "os_MkdirAll dest s = Ok s1"
      using cd by (cases "os_MkdirAll dest s") (auto simp: copyDirectory_def)
    obtain contents where rd: "ReadDir s1 src = Inr contents"
      using cd s1 by (cases "ReadDir s1 src") (auto simp: copyDirectory_def)
    obtain copied s2 where lp: "copyContents (copy n v) src dest contents False s1 = Return copied s2"
      using cd s1 rd
      by (cases "copyContents (copy n v) src dest contents False s1") (auto simp: copyDirectory_def)
    have nc: "\<not> copied" using cd s1 rd lp by (auto simp: copyDirectory_def split: if_splits sysret.splits)
    then have rm: "os_Remove dest s2 = Ok s'"
      using cd s1 rd lp f by (cases "os_Remove dest s2") (auto simp: copyDirectory_def remove_def)
    obtain n1 where n1: "mkdir_all (ps @ [y]) (Some (root s)) = Inr n1"
        "walk n1 (ps @ [y]) = Inr (Directory [])"
        "update_at (ps @ [y]) remove_entry n1 = Inr (root s)"
      using mkdir_rmdir[OF Suc.prems(3,4)] by blast
    have m: "root s1 = n1" "cwd s1 = cwd s"
      using MkdirAll_Ok[OF s1] Suc.prems(2) n1(1) by simp_all
    have r1: "resolve s1 q = resolve s q" for q using m(2) by (rule resolve_cwd)
    have pl: "\<forall>x\<in>set (ps @ [y]). plain x" using resolve_plain[of s dest] Suc.prems(2) by simp
    have w1: "plain_names (root s1)"
      using plain_names_mkdir_all[OF Suc.prems(5) pl n1(1)] m(1) by simp
    have cp: "\<forall>x\<in>set contents. plain x" using w1 rd by (rule ReadDir_plain)
    have d1: "walk (root s1) (resolve s1 dest) = Inr (Directory [])"
      using n1(2) m(1) r1 Suc.prems(2) by simp
    have 2: "root s2 = root s1 \<and> cwd s2 = cwd s1"
    proof (rule copyContents_quiet[where cp = "copy n v" and xs = contents and t = s1
          and dest = dest and src = src and flag = False])
      show "\<forall>x\<in>set contents. plain x" by (rule cp)
      show "walk (root s1) (resolve s1 dest) = Inr (Directory [])" by (rule d1)
      show "plain_names (root s1)" by (rule w1)
      show "copyContents (copy n v) src dest contents False s1 = Return False s2"
        using lp nc by simp
    next
      fix src dest s s' ps y es
      assume "dest \<noteq> []" "resolve s dest = ps @ [y]" "walk (root s) ps = Inr (Directory es)"
        "map_of es y = None" "plain_names (root s)" "copy n v src dest s = Return False s'"
      then show "root s' = root s \<and> cwd s' = cwd s" by (rule Suc.IH)
    qed
    have "resolve s2 dest = ps @ [y]" using 2 m(2) Suc.prems(2) resolve_cwd[of s2 s dest] by simp
    then have "update_at (ps @ [y]) remove_entry n1 = Inr (root s')" "cwd s' = cwd s2"
      using Remove_Ok[OF rm] 2 m(1) by simp_all
    then show ?thesis using n1(3) 2 m(2) by simp
  qed
qed

text \<open>
  After the loop over the entries, with nothing copied under a filter, a destination
  that did not exist or was an empty directory when the copy began is an empty
  directory.
\<close>

lemma dest_empty_after_children:
  assumes f: "filter' v \<noteq> None" and w: "plain_names (root s)"
    and d: "lookup s dest = Inl ENOENT \<or> lookup s dest = Inr (Directory [])"
    and s1: "os_MkdirAll dest s = Ok s1" and rd: "ReadDir s1 src = Inr entries"
    and ce: "copyEach (copy n v) src dest entries s1 = Return results s2"
    and nt: "True \<notin> set results"
  shows "lookup s2 dest = Inr (Directory [])"
proof -
  have m: "dest \<noteq> []" "mkdir_all (resolve s dest) (Some (root s)) = Inr (root s1)" "cwd s1 = cwd s"
    using MkdirAll_Ok[OF s1] by simp_all
  have r1: "resolve s1 q = resolve s q" for q using m(3) by (rule resolve_cwd)
  have "walk (root s1) (resolve s dest) = Inr (Directory [])"
    using d
  proof
    assume "lookup s dest = Inl ENOENT"
    then have "walk (root s) (resolve s dest) = Inl ENOENT" using m(1) by (simp add: lookup_def)
    then show ?thesis using mkdir_all_missing[of "root s" "resolve s dest"] m(2) by auto
  next
    assume "lookup s dest = Inr (Directory [])"
    then have e: "walk (root s) (resolve s dest) = Inr (Directory [])"
      using m(1) by (simp add: lookup_def)
    then have "root s1 = root s" using mkdir_all_existing[OF e] m(2) by simp
    then show ?thesis using e by simp
  qed
  then have d1: "walk (root s1) (resolve s1 dest) = Inr (Directory [])" using r1 by simp
  have w1: "plain_names (root s1)"
    using plain_names_mkdir_all[OF w _ m(2)] resolve_plain by blast
  have cp: "\<forall>x\<in>set entries. plain x" using w1 rd by (rule ReadDir_plain)
  have lp: "copyContents (copy n v) src dest entries False s1 = Return False s2"
    using ce nt by (simp add: copyContents_copyEach)
  have "root s2 = root s1 \<and> cwd s2 = cwd s1"
  proof (rule copyContents_quiet[where cp = "copy n v" and xs = entries and t = s1
        and dest = dest and src = src and flag = False])
    show "\<forall>x\<in>set entries. plain x" by (rule cp)
    show "walk (root s1) (resolve s1 dest) = Inr (Directory [])" by (rule d1)
    show "plain_names (root s1)" by (rule w1)
    show "copyContents (copy n v) src dest entries False s1 = Return False s2" by (rule lp)
  next
    fix src dest s s' ps y es
    assume "dest \<noteq> []" "resolve s dest = ps @ [y]" "walk (root s) ps = Inr (Directory es)"
      "map_of es y = None" "plain_names (root s)" "copy n v src dest s = Return False s'"
    then show "root s' = root s \<and> cwd s' = cwd s" by (rule copy_quiet[OF f])
  qed
  then have "lookup s2 dest = lookup s1 dest" using lookup_cwd_root by blast
  then show ?thesis using d1 m(1) by (simp add: lookup_def)
qed

text \<open>
  C5, as the code has it. For a source that \<open>Lstat\<close> reports as a directory, \<open>copy\<close>
  does what the specification says of a directory, \<open>copyDirectory_spec\<close>: it creates
  \<open>dest\<close> with \<open>MkdirAll\<close> (which leaves a directory there), copies every entry in
  the order read, and returns true exactly when some entry's copy returned true. When
  none did and a filter is set it calls \<open>os.Remove\<close> on \<open>dest\<close>. If \<open>dest\<close> did not
  exist or was an empty directory when the copy began (in a tree whose entries have
  plain names), \<open>dest\<close> is empty at that point: the entries' copies have put nothing
  there. A \<open>dest\<close> that is empty at that point is removed and \<open>copy\<close> returns false;
  a \<open>dest\<close> that holds entries at that point makes the removal fail and the run end
  with \<open>Error removing path\<close>.
\<close>

theorem copy_directory:
  assumes "os_Lstat s src = Inr i" and "\<not> IsSymlink i" and "IsDir i"
  shows
    "copy (Suc n) v src dest s = copyDirectory_spec (copy n v) v src dest s \<and>
     (os_MkdirAll dest s = Ok s1 \<longrightarrow> (\<exists>es. lookup s1 dest = Inr (Directory es))) \<and>
     (os_MkdirAll dest s = Ok s1 \<and> ReadDir s1 src = Inr entries \<and>
      copyEach (copy n v) src dest entries s1 = Return results s2 \<and>
      True \<notin> set results \<and> filter' v \<noteq> None \<longrightarrow>
        (plain_names (root s) \<and>
         (lookup s dest = Inl ENOENT \<or> lookup s dest = Inr (Directory [])) \<longrightarrow>
           lookup s2 dest = Inr (Directory [])) \<and>
        (lookup s2 dest = Inr (Directory []) \<and> resolve s2 dest \<noteq> [] \<longrightarrow>
           (\<exists>s3. copy (Suc n) v src dest s = Return False s3 \<and> lookup s3 dest = Inl ENOENT)) \<and>
        (lookup s2 dest = Inr (Directory (e # es)) \<longrightarrow>
           copy (Suc n) v src dest s =
             Fatal ''Error removing path'' (s2\<lparr>trace := trace s2 @ [SysRemove dest]\<rparr>)))"
proof -
  have c: "copy (Suc n) v src dest s = copyDirectory_spec (copy n v) v src dest s"
    using assms by (simp add: copyDirectory_refines)
  have m: "\<exists>es. lookup s1 dest = Inr (Directory es)" if "os_MkdirAll dest s = Ok s1"
    using that by (rule MkdirAll_makes_dir)
  have r: "(plain_names (root s) \<and>
         (lookup s dest = Inl ENOENT \<or> lookup s dest = Inr (Directory [])) \<longrightarrow>
           lookup s2 dest = Inr (Directory [])) \<and>
        (lookup s2 dest = Inr (Directory []) \<and> resolve s2 dest \<noteq> [] \<longrightarrow>
           (\<exists>s3. copy (Suc n) v src dest s = Return False s3 \<and> lookup s3 dest = Inl ENOENT)) \<and>
        (lookup s2 dest = Inr (Directory (e # es)) \<longrightarrow>
           copy (Suc n) v src dest s =
             Fatal ''Error removing path'' (s2\<lparr>trace := trace s2 @ [SysRemove dest]\<rparr>))"
    if h: "os_MkdirAll dest s = Ok s1" "ReadDir s1 src = Inr entries"
      "copyEach (copy n v) src dest entries s1 = Return results s2"
      "True \<notin> set results" "filter' v \<noteq> None"
  proof -
    have last: "copy (Suc n) v src dest s =
        (case os_Remove dest s2 of
           Err e s3 \<Rightarrow> Fatal ''Error removing path'' s3
         | Ok s3 \<Rightarrow> Return False s3)"
      using c h by (simp add: copyDirectory_spec_def)
    show ?thesis
    proof (intro conjI impI)
      assume "plain_names (root s) \<and>
         (lookup s dest = Inl ENOENT \<or> lookup s dest = Inr (Directory []))"
      then show "lookup s2 dest = Inr (Directory [])"
        using dest_empty_after_children[OF h(5) _ _ h(1,2,3,4)] by blast
    next
      assume "lookup s2 dest = Inr (Directory []) \<and> resolve s2 dest \<noteq> []"
      then obtain s3 where "os_Remove dest s2 = Ok s3" "lookup s3 dest = Inl ENOENT"
        using Remove_empty_dir[of s2 dest] by blast
      then show "\<exists>s3. copy (Suc n) v src dest s = Return False s3 \<and> lookup s3 dest = Inl ENOENT"
        using last by simp
    next
      assume "lookup s2 dest = Inr (Directory (e # es))"
      then obtain er where "os_Remove dest s2 = Err er (s2\<lparr>trace := trace s2 @ [SysRemove dest]\<rparr>)"
        using Remove_nonempty_fails[of s2 dest e es] by blast
      then show "copy (Suc n) v src dest s =
             Fatal ''Error removing path'' (s2\<lparr>trace := trace s2 @ [SysRemove dest]\<rparr>)"
        using last by simp
    qed
  qed
  show ?thesis using c m r by blast
qed

theorem copy_directory_witness:
  "os_Lstat world5 ''/c/m'' = Inr \<lparr>IsDir = True, IsSymlink = False, ModTime = 0\<rparr> \<and>
   plain_names (root world5) \<and> lookup world5 ''/w/v/m'' = Inl ENOENT \<and>
   (case copy 2 vendor5 ''/c/m'' ''/w/v/m'' world5 of
      Return c s \<Rightarrow> (c, lookup s ''/w/v/m'')
    | Fatal m s \<Rightarrow> (True, Inl EBUSY)
    | Diverge \<Rightarrow> (True, Inl EBUSY)) = (False, Inl ENOENT)"
proof -
  let ?i = "\<lparr>IsDir = True, IsSymlink = False, ModTime = 0\<rparr>"
  let ?T = "Directory
        [(''w'', Directory [(''go.mod'', File ''module p''),
                            (''v'', Directory [(''m'', Directory [])])]),
         (''c'', Directory
            [(''m'', Directory [(''README'', File ''text'')]),
             (''sub'', Directory [(''a.go'', File ''package a'')])])]"
  let ?s1 = "world5\<lparr>root := ?T, trace := trace world5 @ [SysMkdirAll ''/w/v/m'']\<rparr>"
  have l: "os_Lstat world5 ''/c/m'' = Inr ?i" by code_simp
  have i: "\<not> IsSymlink ?i" "IsDir ?i" by simp_all
  have w: "plain_names (root world5)" by code_simp
  have d: "lookup world5 ''/w/v/m'' = Inl ENOENT" by code_simp
  have f: "filter' vendor5 \<noteq> None" by (simp add: vendor5_def)
  have r: "resolve s ''/w/v/m'' = [''w'', ''v'', ''m'']" for s by code_simp
  have m: "os_MkdirAll ''/w/v/m'' world5 = Ok ?s1"
    using r by (simp add: os_MkdirAll_def attempt_def world5_def)
  have rd: "ReadDir ?s1 ''/c/m'' = Inr [''README'']" by code_simp
  have j: "Join ''/c/m'' ''README'' = ''/c/m/README''" "Join ''/w/v/m'' ''README'' = ''/w/v/m/README''"
    by code_simp+
  have "copy (Suc 0) vendor5 ''/c/m/README'' ''/w/v/m/README'' s = Return False s"
    if "root s = ?T" "cwd s = ''/w''" for s
  proof -
    have a: "resolve s ''/c/m/README'' = [''c'', ''m'', ''README'']" by code_simp
    have "os_Lstat s ''/c/m/README'' = Inr (info_of (File ''text'') (mtime s [''c'', ''m'', ''README'']))"
      using that a by (simp add: os_Lstat_def lookup_def)
    moreover have "\<not> MatchString (\<lambda>a m b. m = ''.go'' \<and> b = []) ''/w/v/m/README''" by code_simp
    ultimately show ?thesis by (simp add: info_of_def vendor5_def)
  qed
  then have "copy (Suc 0) vendor5 ''/c/m/README'' ''/w/v/m/README'' ?s1 = Return False ?s1"
    by (simp add: world5_def)
  then have ce: "copyEach (copy (Suc 0) vendor5) ''/c/m'' ''/w/v/m'' [''README''] ?s1 = Return [False] ?s1"
    using j by simp
  have nt: "True \<notin> set [False]" by simp
  note T = copy_directory[OF l i, where n = "Suc 0" and v = vendor5 and dest = "''/w/v/m''"
      and ?s1.0 = ?s1 and entries = "[''README'']" and results = "[False]" and ?s2.0 = ?s1]
  have e: "lookup ?s1 ''/w/v/m'' = Inr (Directory [])"
    using T m rd ce nt f w d by blast
  have "resolve ?s1 ''/w/v/m'' \<noteq> []" using r by simp
  then obtain s3 where "copy (Suc (Suc 0)) vendor5 ''/c/m'' ''/w/v/m'' world5 = Return False s3"
      "lookup s3 ''/w/v/m'' = Inl ENOENT"
    using T m rd ce nt f e by blast
  then have "(case copy (Suc (Suc 0)) vendor5 ''/c/m'' ''/w/v/m'' world5 of
      Return c s \<Rightarrow> (c, lookup s ''/w/v/m'')
    | Fatal m s \<Rightarrow> (True, Inl EBUSY)
    | Diverge \<Rightarrow> (True, Inl EBUSY)) = (False, Inl ENOENT)"
    by simp
  then show ?thesis using l w d by (simp only: numeral_2_eq_2 simp_thms)
qed

text \<open>
  The claim as written has \<open>dest\<close> empty whenever no entry's copy returned true. With
  the nested module \<open>m/sub\<close> vendored before its parent \<open>m\<close>, whose only file the
  filter rejects: after the loop over the entries of \<open>m\<close> nothing was copied, the
  filter is set, and \<open>/w/v/m\<close> still holds \<open>sub\<close>; the removal fails and the run ends.
\<close>

theorem copy_directory_dest_not_empty:
  "(case copyContents (copy 1 vendor5) ''/c/m'' ''/w/v/m'' [''README''] False world5m of
      Return c s \<Rightarrow> (c, lookup s ''/w/v/m'')
    | Fatal m s \<Rightarrow> (True, Inl EBUSY)
    | Diverge \<Rightarrow> (True, Inl EBUSY)) =
     (False, Inr (Directory [(''sub'', Directory [(''a.go'', File ''package a'')])])) \<and>
   (case copy 2 vendor5 ''/c/m'' ''/w/v/m'' world5m of
      Return c s \<Rightarrow> [] | Fatal m s \<Rightarrow> m | Diverge \<Rightarrow> []) = ''Error removing path'' \<and>
   (case copyDeps 3 vendor5 (deps vendor5) world5 of
      Return u s \<Rightarrow> ([], Inl EBUSY)
    | Fatal m s \<Rightarrow> (m, lookup s ''/w/v/m'')
    | Diverge \<Rightarrow> ([], Inl EBUSY)) =
     (''Error removing path'',
      Inr (Directory [(''sub'', Directory [(''a.go'', File ''package a'')])]))"
  by code_simp

section \<open>Redirections and the vendor root\<close>

text \<open>
  C4. The claim: when the \<open>newPath\<close> destination does not exist under the vendor root,
  the content comes from the external location \<open>newPath\<close>. For the rule
  \<open>example.com/lib => ../internal\<close> in the project \<open>/w\<close>, the external location is
  \<open>/internal\<close>. \<open>vendPath\<close> joins the root \<open>/w/vendor\<close> with \<open>../internal\<close> to
  \<open>/w/internal\<close>, the project's own directory, which is not under the vendor root but
  exists: the rule copies that directory to the \<open>oldPath\<close> destination and removes it,
  and \<open>/internal\<close> is never read.
\<close>

theorem replace_takes_sibling_of_root:
  "Path (Old rule49) \<noteq> Path (New rule49) \<and>
   vendPath vendor49 (Path (New rule49)) = ''/w/internal'' \<and>
   \<not> under (basePath vendor49) ''/w/internal'' \<and>
   lookup world49 (Path (New rule49)) = Inr (Directory [(''lib.go'', File ''package lib'')]) \<and>
   (case replace 3 vendor49 rule49 world49 of
      Return u s \<Rightarrow> (lookup s (vendPath vendor49 (Path (Old rule49))), lookup s ''/w/internal'')
    | Fatal m s \<Rightarrow> (Inl EBUSY, Inl EBUSY)
    | Diverge \<Rightarrow> (Inl EBUSY, Inl EBUSY)) =
     (Inr (Directory [(''x.go'', File ''package internal'')]), Inl ENOENT)"
  by code_simp

text \<open>
  C9. The claim: every path the engine removes lies under the vendor root. In the run
  for the same project, \<open>removeAll\<close> is given \<open>/w/internal\<close>: it is not shorter than
  \<open>/w/vendor\<close>, so the length test lets it through, and \<open>os.RemoveAll\<close> deletes a
  directory of the project outside the vendor root.
\<close>

theorem run_removes_outside_root:
  "\<not> under (basePath vendor49) ''/w/internal'' \<and>
   \<not> length ''/w/internal'' < length (basePath vendor49) \<and>
   lookup world49 ''/w/internal'' = Inr (Directory [(''x.go'', File ''package internal'')]) \<and>
   (case CopyDependencies 3 vendor49 world49 of
      Return u s \<Rightarrow> (trace s, lookup s ''/w/internal'')
    | Fatal m s \<Rightarrow> ([], Inl EBUSY)
    | Diverge \<Rightarrow> ([], Inl EBUSY)) =
     ([SysRemoveAll ''/w/vendor'', SysMkdirAll ''/w/vendor'',
       SysWriteFile ''/w/vendor/modules.txt'',
       SysMkdirAll ''/w/vendor/example.com/lib'', SysMkdirAll ''/w/vendor/example.com/lib'',
       SysCreate ''/w/vendor/example.com/lib/x.go'', SysRemoveAll ''/w/internal''],
      Inl ENOENT)"
  by code_simp

end
